theory Spec2Isabelle
  imports Main "HOL-Library.Multiset" "HOL-Library.Word"
begin

section \<open>Data model\<close>

text \<open>
  \<^verbatim>\<open>rosbag2_storage::SerializedBagMessage\<close>: topic name, opaque payload and a time stamp
  (\<^verbatim>\<open>rcutils_time_point_value_t\<close>, a signed 64-bit count of nanoseconds).  The code only
  compares and copies time stamps, it never does arithmetic on them, so they are modelled
  as \<open>int\<close>.  A null \<^verbatim>\<open>shared_ptr\<close> is \<open>None\<close>.
\<close>

record SerializedBagMessage =
  topic_name :: string
  serialized_data :: "8 word list"
  time_stamp :: int

datatype error =
  runtime_error string
  | undefined_behavior

text \<open>
  Modelled from the spec: \<^verbatim>\<open>rosbag2_cpp::Reader\<close> is an external collaborator whose
  implementation is not part of the sources.  Its contract is an ordered cursor over the
  messages of a bag: \<^verbatim>\<open>has_next\<close>, \<^verbatim>\<open>read_next\<close> and \<^verbatim>\<open>seek(t)\<close>, after which the cursor
  yields the messages of the bag whose time stamp is at least \<open>t\<close>.
\<close>

record Reader =
  bag :: "SerializedBagMessage list"
  remaining :: "SerializedBagMessage list"

definition has_next :: "Reader \<Rightarrow> bool" where
  "has_next r = (remaining r \<noteq> [])"

text \<open>\<open>read_next\<close> is only ever called under a successful \<open>has_next\<close>.\<close>

definition read_next :: "Reader \<Rightarrow> SerializedBagMessage \<times> Reader" where
  "read_next r = (hd (remaining r), r\<lparr>remaining := tl (remaining r)\<rparr>)"

definition reader_seek :: "int \<Rightarrow> Reader \<Rightarrow> Reader" where
  "reader_seek t r = r\<lparr>remaining := filter (\<lambda>m. t \<le> time_stamp m) (bag r)\<rparr>"

text \<open>
  Modelled from the spec: \<^verbatim>\<open>rosbag2_cpp::Writer\<close> is external as well.  A writer is
  modelled by the sequence of messages handed to its \<^verbatim>\<open>write\<close>, oldest first.
\<close>

type_synonym Writer = "SerializedBagMessage list"

definition writer_write :: "Writer \<Rightarrow> SerializedBagMessage \<Rightarrow> Writer" where
  "writer_write w m = w @ [m]"

section \<open>The rewrite merger (\<^verbatim>\<open>rewrite.cpp\<close>)\<close>

type_synonym slots = "SerializedBagMessage option list"

text \<open>
  First loop of \<^verbatim>\<open>get_next\<close>: refill every empty slot whose reader has a next message.
  \<^verbatim>\<open>input_bags[i]\<close> is read only when the slot is null (short-circuit \<^verbatim>\<open>&&\<close>); an index
  beyond the vector is undefined behaviour in C++ and an error value here.
\<close>

function refill :: "nat \<Rightarrow> Reader list \<Rightarrow> slots \<Rightarrow> error + (Reader list \<times> slots)" where
  "refill i input_bags next_messages =
    (if i < length next_messages then
       (if next_messages ! i = None then
          (if length input_bags \<le> i then Inl undefined_behavior
           else if has_next (input_bags ! i) then
             (case read_next (input_bags ! i) of (m, r) \<Rightarrow>
                refill (Suc i) (input_bags[i := r]) (next_messages[i := Some m]))
           else refill (Suc i) input_bags next_messages)
        else refill (Suc i) input_bags next_messages)
     else Inr (input_bags, next_messages))"
  by pat_completeness auto
termination
  by (relation "measure (\<lambda>(i, bs, nm). length nm - i)") auto

declare refill.simps [simp del]

text \<open>\<^verbatim>\<open>size_t earliest_msg_index = -1\<close> is the largest value of a 64-bit \<^verbatim>\<open>size_t\<close>.\<close>

definition SIZE_MAX :: nat where
  "SIZE_MAX = 2 ^ 64 - 1"

text \<open>
  Second loop of \<^verbatim>\<open>get_next\<close>: the running pair \<^verbatim>\<open>(earliest_msg, earliest_msg_index)\<close> is
  replaced only by a strictly smaller time stamp.
\<close>

function find_earliest ::
  "nat \<Rightarrow> slots \<Rightarrow> SerializedBagMessage option \<Rightarrow> nat \<Rightarrow> SerializedBagMessage option \<times> nat" where
  "find_earliest i next_messages earliest_msg earliest_msg_index =
    (if i < length next_messages then
       (case next_messages ! i of
          None \<Rightarrow> find_earliest (Suc i) next_messages earliest_msg earliest_msg_index
        | Some msg \<Rightarrow>
            (if earliest_msg = None \<or> time_stamp msg < time_stamp (the earliest_msg)
             then find_earliest (Suc i) next_messages (Some msg) i
             else find_earliest (Suc i) next_messages earliest_msg earliest_msg_index))
     else (earliest_msg, earliest_msg_index))"
  by pat_completeness auto
termination
  by (relation "measure (\<lambda>(i, nm, em, ei). length nm - i)") auto

declare find_earliest.simps [simp del]

text \<open>
  \<^verbatim>\<open>get_next\<close>: refill, search, then clear the slot of the message that is returned.  The
  reset \<^verbatim>\<open>next_messages[earliest_msg_index].reset()\<close> at an index outside the vector would be
  undefined behaviour.
\<close>

definition get_next ::
  "Reader list \<Rightarrow> slots \<Rightarrow> error + (SerializedBagMessage option \<times> Reader list \<times> slots)" where
  "get_next input_bags next_messages =
    (case refill 0 input_bags next_messages of
       Inl e \<Rightarrow> Inl e
     | Inr (bags1, slots1) \<Rightarrow>
         (case find_earliest 0 slots1 None SIZE_MAX of
            (earliest_msg, earliest_msg_index) \<Rightarrow>
              (if earliest_msg \<noteq> None then
                 (if earliest_msg_index < length slots1
                  then Inr (earliest_msg, bags1, slots1[earliest_msg_index := None])
                  else Inl undefined_behavior)
               else Inr (earliest_msg, bags1, slots1))))"

text \<open>Number of messages not yet handed out: those in the slots and those behind the cursors.\<close>

definition occupied :: "SerializedBagMessage option \<Rightarrow> nat" where
  "occupied s = (case s of None \<Rightarrow> 0 | Some m \<Rightarrow> 1)"

definition pending :: "Reader list \<Rightarrow> slots \<Rightarrow> nat" where
  "pending input_bags next_messages =
     sum_list (map (\<lambda>r. length (remaining r)) input_bags) + sum_list (map occupied next_messages)"

lemma sum_list_map_update:
  fixes f :: "'a \<Rightarrow> nat"
  assumes "i < length xs"
  shows "sum_list (map f (xs[i := x])) + f (xs ! i) = sum_list (map f xs) + f x"
  using assms
proof (induction xs arbitrary: i)
  case Nil
  then show ?case by simp
next
  case (Cons a xs)
  then show ?case by (cases i) auto
qed

lemma refill_length:
  "refill i bs nm = Inr (bs', nm') \<Longrightarrow> length bs' = length bs \<and> length nm' = length nm"
proof (induction i bs nm rule: refill.induct)
  case (1 i bs nm)
  show ?case
    using "1.prems" "1.IH"
    by (subst (asm) refill.simps) (auto split: if_splits prod.splits)
qed

lemma pending_move:
  assumes "i < length nm" "i < length bs" "nm ! i = None" "has_next (bs ! i)"
    "read_next (bs ! i) = (m, r)"
  shows "pending (bs[i := r]) (nm[i := Some m]) = pending bs nm"
proof -
  have r: "length (remaining (bs ! i)) = Suc (length (remaining r))"
    using assms(4,5) by (cases "remaining (bs ! i)") (auto simp: has_next_def read_next_def)
  have a: "sum_list (map (\<lambda>r. length (remaining r)) (bs[i := r])) + length (remaining (bs ! i))
        = sum_list (map (\<lambda>r. length (remaining r)) bs) + length (remaining r)"
    using sum_list_map_update[OF assms(2)] by blast
  have b: "sum_list (map occupied (nm[i := Some m])) + occupied (nm ! i)
        = sum_list (map occupied nm) + occupied (Some m)"
    using sum_list_map_update[OF assms(1)] by blast
  show ?thesis
    using a b r assms(3) by (simp add: pending_def occupied_def)
qed

lemma refill_pending:
  "refill i bs nm = Inr (bs', nm') \<Longrightarrow> pending bs' nm' = pending bs nm"
proof (induction i bs nm rule: refill.induct)
  case (1 i bs nm)
  show ?case
    using "1.prems" "1.IH"
    by (subst (asm) refill.simps) (auto split: if_splits prod.splits simp: pending_move)
qed


definition earliest_upto ::
  "slots \<Rightarrow> nat \<Rightarrow> SerializedBagMessage option \<Rightarrow> nat \<Rightarrow> bool" where
  "earliest_upto nm i em ei =
     (case em of
        None \<Rightarrow> (\<forall>k<i. nm ! k = None)
      | Some m \<Rightarrow> ei < i \<and> nm ! ei = Some m
          \<and> (\<forall>k<i. \<forall>m'. nm ! k = Some m' \<longrightarrow> time_stamp m \<le> time_stamp m')
          \<and> (\<forall>k<ei. \<forall>m'. nm ! k = Some m' \<longrightarrow> time_stamp m < time_stamp m'))"

lemma earliest_upto_skip:
  "earliest_upto nm i em ei \<Longrightarrow> nm ! i = None \<Longrightarrow> earliest_upto nm (Suc i) em ei"
  by (auto simp: earliest_upto_def less_Suc_eq split: option.splits)

lemma earliest_upto_take:
  "earliest_upto nm i em ei \<Longrightarrow> nm ! i = Some msg \<Longrightarrow>
   em = None \<or> time_stamp msg < time_stamp (the em) \<Longrightarrow> earliest_upto nm (Suc i) (Some msg) i"
  by (fastforce simp: earliest_upto_def less_Suc_eq split: option.splits)

lemma earliest_upto_keep:
  "earliest_upto nm i em ei \<Longrightarrow> nm ! i = Some msg \<Longrightarrow>
   \<not> (em = None \<or> time_stamp msg < time_stamp (the em)) \<Longrightarrow> earliest_upto nm (Suc i) em ei"
  by (auto simp: earliest_upto_def less_Suc_eq split: option.splits)

lemma find_earliest_inv:
  "find_earliest i nm em ei = (em', ei') \<Longrightarrow> i \<le> length nm \<Longrightarrow> earliest_upto nm i em ei \<Longrightarrow>
   earliest_upto nm (length nm) em' ei'"
proof (induction i nm em ei rule: find_earliest.induct)
  case (1 i nm em ei)
  show ?case
  proof (cases "i < length nm")
    case False
    with "1.prems" show ?thesis
      by (subst (asm) find_earliest.simps) simp
  next
    case True
    show ?thesis
    proof (cases "nm ! i")
      case None
      with True "1.prems"(1) have "find_earliest (Suc i) nm em ei = (em', ei')"
        by (subst (asm) find_earliest.simps) simp
      with "1.IH"(1)[OF True None] True earliest_upto_skip[OF "1.prems"(3) None]
      show ?thesis by simp
    next
      case (Some msg)
      show ?thesis
      proof (cases "em = None \<or> time_stamp msg < time_stamp (the em)")
        case t: True
        with True Some "1.prems"(1) have "find_earliest (Suc i) nm (Some msg) i = (em', ei')"
          by (subst (asm) find_earliest.simps) simp
        with "1.IH"(2)[OF True Some t] True earliest_upto_take[OF "1.prems"(3) Some t]
        show ?thesis by simp
      next
        case f: False
        with True Some "1.prems"(1) have "find_earliest (Suc i) nm em ei = (em', ei')"
          by (subst (asm) find_earliest.simps) auto
        with "1.IH"(3)[OF True Some f] True earliest_upto_keep[OF "1.prems"(3) Some f]
        show ?thesis by simp
      qed
    qed
  qed
qed

lemma find_earliest_0:
  "find_earliest 0 nm None ei = (em', ei') \<Longrightarrow> earliest_upto nm (length nm) em' ei'"
  by (rule find_earliest_inv) (auto simp: earliest_upto_def)

lemma pending_reset:
  assumes "j < length nm" "nm ! j = Some m"
  shows "Suc (pending bs (nm[j := None])) = pending bs nm"
proof -
  have "sum_list (map occupied (nm[j := None])) + occupied (nm ! j)
        = sum_list (map occupied nm) + occupied None"
    using sum_list_map_update[OF assms(1)] by blast
  then show ?thesis using assms(2) by (simp add: pending_def occupied_def)
qed

lemma get_next_pending:
  assumes "get_next bs nm = Inr (Some m, bs', nm')"
  shows "pending bs' nm' < pending bs nm"
proof -
  from assms obtain bs1 nm1 where r: "refill 0 bs nm = Inr (bs1, nm1)"
    by (auto simp: get_next_def split: sum.splits)
  obtain em ei where f: "find_earliest 0 nm1 None SIZE_MAX = (em, ei)"
    by (cases "find_earliest 0 nm1 None SIZE_MAX")
  from assms r f have e: "em = Some m" "ei < length nm1" "bs' = bs1" "nm' = nm1[ei := None]"
    by (auto simp: get_next_def split: if_splits)
  from find_earliest_0[OF f] e have "nm1 ! ei = Some m"
    by (simp add: earliest_upto_def)
  with pending_reset[OF e(2), of m bs1] refill_pending[OF r] e show ?thesis by simp
qed

text \<open>
  The loop of \<^verbatim>\<open>rewrite\<close>: every message that \<^verbatim>\<open>get_next\<close> returns is written to every
  writer, in the order of \<^verbatim>\<open>output_bags\<close>; a null result ends the loop.  The readers and
  writers are mutated in place, so the state reached is returned together with the error.
\<close>

function rewrite_loop ::
  "Reader list \<Rightarrow> slots \<Rightarrow> Writer list \<Rightarrow> error option \<times> Reader list \<times> Writer list" where
  "rewrite_loop input_bags next_messages output_bags =
    (case get_next input_bags next_messages of
       Inl e \<Rightarrow> (Some e, input_bags, output_bags)
     | Inr (None, bags', slots') \<Rightarrow> (None, bags', output_bags)
     | Inr (Some next_msg, bags', slots') \<Rightarrow>
         rewrite_loop bags' slots' (map (\<lambda>writer. writer_write writer next_msg) output_bags))"
  by pat_completeness auto
termination
  by (relation "measure (\<lambda>(bs, nm, ws). pending bs nm)") (auto simp: get_next_pending)

declare rewrite_loop.simps [simp del]

definition rewrite :: "Reader list \<Rightarrow> Writer list \<Rightarrow> error option \<times> Reader list \<times> Writer list" where
  "rewrite input_bags output_bags =
    (if input_bags = [] \<or> output_bags = [] then
       (Some (runtime_error ''Must provide at least one input and one output bag to rewrite.''),
        input_bags, output_bags)
     else rewrite_loop input_bags (replicate (length input_bags) None) output_bags)"

subsection \<open>The merge as the specification words it\<close>

text \<open>
  The messages reader \<open>i\<close> has not yet handed to a writer: the one waiting in slot \<open>i\<close>, if
  any, followed by those behind the cursor.  Its first element is the reader's current head.
\<close>

definition stream :: "Reader \<Rightarrow> SerializedBagMessage option \<Rightarrow> SerializedBagMessage list" where
  "stream r s = (case s of None \<Rightarrow> [] | Some m \<Rightarrow> [m]) @ remaining r"

definition streams :: "Reader list \<Rightarrow> slots \<Rightarrow> SerializedBagMessage list list" where
  "streams bs nm = map (\<lambda>(r, s). stream r s) (zip bs nm)"

text \<open>
  Reference definition, following the specification: choose \<open>j = argmin\<^sub>i head[i].time_stamp\<close>
  among the non-empty heads, breaking ties by the smallest \<open>i\<close>; if none is non-empty, stop;
  otherwise emit \<open>head[j]\<close> and advance reader \<open>j\<close>.
\<close>

definition is_argmin_head :: "SerializedBagMessage list list \<Rightarrow> nat \<Rightarrow> bool" where
  "is_argmin_head heads j \<longleftrightarrow>
     j < length heads \<and> heads ! j \<noteq> [] \<and>
     (\<forall>i<length heads. heads ! i \<noteq> [] \<longrightarrow>
        time_stamp (hd (heads ! j)) \<le> time_stamp (hd (heads ! i)))"

definition choose_head :: "SerializedBagMessage list list \<Rightarrow> nat option" where
  "choose_head heads = find (is_argmin_head heads) [0..<length heads]"

lemma find_upt_Some:
  "find P [0..<n] = Some j \<longleftrightarrow> j < n \<and> P j \<and> (\<forall>i<j. \<not> P i)"
  by (auto simp: find_Some_iff)

lemma find_upt_None: "find P [0..<n] = None \<longleftrightarrow> (\<forall>j<n. \<not> P j)"
  by (auto simp: find_None_iff)

lemma choose_head_Some:
  "choose_head ss = Some j \<Longrightarrow> j < length ss \<and> ss ! j \<noteq> []"
  by (auto simp: choose_head_def find_upt_Some is_argmin_head_def)

lemma choose_head_None:
  assumes "choose_head ss = None"
  shows "\<forall>s\<in>set ss. s = []"
proof (rule ccontr)
  assume "\<not> (\<forall>s\<in>set ss. s = [])"
  then obtain k where k: "k < length ss" "ss ! k \<noteq> []"
    by (auto simp: in_set_conv_nth)
  let ?I = "{i. i < length ss \<and> ss ! i \<noteq> []}"
  let ?K = "(\<lambda>i. time_stamp (hd (ss ! i))) ` ?I"
  have fin: "finite ?K" by simp
  have ne: "?K \<noteq> {}" using k by auto
  from Min_in[OF fin ne] obtain j where j: "j \<in> ?I" "Min ?K = time_stamp (hd (ss ! j))"
    by auto
  have "\<forall>i<length ss. ss ! i \<noteq> [] \<longrightarrow> time_stamp (hd (ss ! j)) \<le> time_stamp (hd (ss ! i))"
  proof (intro allI impI)
    fix i assume "i < length ss" "ss ! i \<noteq> []"
    then have "time_stamp (hd (ss ! i)) \<in> ?K" by blast
    from Min_le[OF fin this] j(2) show "time_stamp (hd (ss ! j)) \<le> time_stamp (hd (ss ! i))"
      by simp
  qed
  with j(1) have "is_argmin_head ss j" by (simp add: is_argmin_head_def)
  with assms j(1) show False by (simp add: choose_head_def find_upt_None)
qed

lemma sum_list_length_update:
  assumes "j < length ss" "ss ! j \<noteq> []"
  shows "sum_list (map length (ss[j := tl (ss ! j)])) < sum_list (map length ss)"
proof -
  have "sum_list (map length (ss[j := tl (ss ! j)])) + length (ss ! j)
      = sum_list (map length ss) + length (tl (ss ! j))"
    using sum_list_map_update[OF assms(1)] by blast
  moreover have "length (tl (ss ! j)) < length (ss ! j)" using assms(2) by (cases "ss ! j") auto
  ultimately show ?thesis by linarith
qed

function kway_merge :: "SerializedBagMessage list list \<Rightarrow> SerializedBagMessage list" where
  "kway_merge heads =
     (case choose_head heads of
        None \<Rightarrow> []
      | Some j \<Rightarrow> hd (heads ! j) # kway_merge (heads[j := tl (heads ! j)]))"
  by pat_completeness auto
termination
  by (relation "measure (\<lambda>ss. sum_list (map length ss))")
     (auto dest!: choose_head_Some simp: sum_list_length_update)

declare kway_merge.simps [simp del]

lemma mset_concat_update:
  "j < length ss \<Longrightarrow> ss ! j \<noteq> [] \<Longrightarrow>
   mset (concat (ss[j := tl (ss ! j)])) + {#hd (ss ! j)#} = mset (concat ss)"
proof (induction ss arbitrary: j)
  case Nil
  then show ?case by simp
next
  case (Cons s ss)
  show ?case
  proof (cases j)
    case 0
    with Cons.prems show ?thesis by (cases s) auto
  next
    case (Suc k)
    with Cons.prems Cons.IH[of k] show ?thesis by (simp add: ac_simps)
  qed
qed

lemma mset_kway_merge: "mset (kway_merge ss) = mset (concat ss)"
proof (induction ss rule: kway_merge.induct)
  case (1 ss)
  show ?case
  proof (cases "choose_head ss")
    case None
    from choose_head_None[OF None] have "concat ss = []" by simp
    with None show ?thesis by (subst kway_merge.simps) simp
  next
    case (Some j)
    from choose_head_Some[OF Some] mset_concat_update[of j ss] "1.IH"[OF Some] Some
    show ?thesis by (subst kway_merge.simps) simp
  qed
qed

lemma sorted_kway_merge:
  "\<forall>s\<in>set ss. sorted (map time_stamp s) \<Longrightarrow> sorted (map time_stamp (kway_merge ss))"
proof (induction ss rule: kway_merge.induct)
  case (1 ss)
  show ?case
  proof (cases "choose_head ss")
    case None
    then show ?thesis by (subst kway_merge.simps) simp
  next
    case (Some j)
    let ?ss' = "ss[j := tl (ss ! j)]"
    from choose_head_Some[OF Some] have j: "j < length ss" "ss ! j \<noteq> []" by auto
    from Some have am: "is_argmin_head ss j" by (simp add: choose_head_def find_upt_Some)
    have "sorted (map time_stamp (ss ! j))" using "1.prems" j(1) by simp
    then have "sorted (map time_stamp (tl (ss ! j)))" by (simp add: map_tl sorted_tl)
    with "1.prems" have "\<forall>s\<in>set ?ss'. sorted (map time_stamp s)"
      by (auto dest!: set_update_subset_insert[THEN subsetD])
    from "1.IH"[OF Some this] have rest: "sorted (map time_stamp (kway_merge ?ss'))" .
    have le: "time_stamp (hd (ss ! j)) \<le> time_stamp x" if "x \<in> set (kway_merge ?ss')" for x
    proof -
      from that have "x \<in># mset (kway_merge ?ss')" by simp
      then have "x \<in># mset (concat ?ss')" by (simp only: mset_kway_merge)
      then have "x \<in># mset (concat ss)" using mset_concat_update[OF j] by (metis union_iff)
      then obtain s where s: "s \<in> set ss" "x \<in> set s" by auto
      then obtain i where i: "i < length ss" "ss ! i = s" by (auto simp: in_set_conv_nth)
      from s(2) have ne: "s \<noteq> []" by auto
      from "1.prems" s(1) have srt: "sorted (map time_stamp s)" by simp
      have "time_stamp (hd s) \<le> time_stamp x"
      proof (cases s)
        case Nil with ne show ?thesis by simp
      next
        case (Cons a as)
        with srt s(2) show ?thesis by auto
      qed
      moreover from am i ne have "time_stamp (hd (ss ! j)) \<le> time_stamp (hd s)"
        by (auto simp: is_argmin_head_def)
      ultimately show ?thesis by linarith
    qed
    from rest le Some show ?thesis
      by (subst kway_merge.simps) auto
  qed
qed

lemma refill_ok:
  "length nm \<le> length bs \<Longrightarrow> \<exists>bs' nm'. refill i bs nm = Inr (bs', nm')"
proof (induction i bs nm rule: refill.induct)
  case (1 i bs nm)
  show ?case
    using "1.prems" "1.IH"
    by (subst refill.simps) (auto split: prod.splits)
qed

lemma stream_read_next:
  "has_next r \<Longrightarrow> read_next r = (m, r') \<Longrightarrow> stream r' (Some m) = stream r None"
  by (cases "remaining r") (auto simp: has_next_def read_next_def stream_def)

lemma streams_move:
  assumes "i < length nm" "i < length bs" "nm ! i = None" "has_next (bs ! i)"
    "read_next (bs ! i) = (m, r)"
  shows "streams (bs[i := r]) (nm[i := Some m]) = streams bs nm"
proof -
  have "zip (bs[i := r]) (nm[i := Some m]) = (zip bs nm)[i := (r, Some m)]"
    by (simp add: update_zip)
  then have "streams (bs[i := r]) (nm[i := Some m]) = (streams bs nm)[i := stream r (Some m)]"
    by (simp add: streams_def map_update)
  also have "stream r (Some m) = streams bs nm ! i"
    using assms stream_read_next[OF assms(4,5)] by (simp add: streams_def)
  finally show ?thesis by simp
qed

lemma refill_streams:
  "refill i bs nm = Inr (bs', nm') \<Longrightarrow> streams bs' nm' = streams bs nm"
proof (induction i bs nm rule: refill.induct)
  case (1 i bs nm)
  show ?case
    using "1.prems" "1.IH"
    by (subst (asm) refill.simps) (auto split: if_splits prod.splits simp: streams_move)
qed

lemma refill_bag:
  "refill i bs nm = Inr (bs', nm') \<Longrightarrow> map bag bs' = map bag bs"
proof (induction i bs nm rule: refill.induct)
  case (1 i bs nm)
  have upd: "map bag (bs[i := r]) = map bag bs" if "read_next (bs ! i) = (m, r)" "i < length bs" for m r
    using that by (auto simp: read_next_def map_update list_update_same_conv)
  show ?case
    using "1.prems" "1.IH"
    by (subst (asm) refill.simps) (auto split: if_splits prod.splits simp: upd)
qed

lemma refill_full:
  "refill i bs nm = Inr (bs', nm') \<Longrightarrow>
   (\<forall>k<i. k < length nm \<longrightarrow> nm ! k = None \<longrightarrow> \<not> has_next (bs ! k)) \<Longrightarrow>
   (\<forall>k<length nm'. nm' ! k = None \<longrightarrow> \<not> has_next (bs' ! k))"
proof (induction i bs nm rule: refill.induct)
  case (1 i bs nm)
  show ?case
  proof (cases "i < length nm")
    case False
    with "1.prems" show ?thesis
      by (subst (asm) refill.simps) auto
  next
    case True
    show ?thesis
    proof (cases "nm ! i = None")
      case f: False
      with True "1.prems"(1) have r: "refill (Suc i) bs nm = Inr (bs', nm')"
        by (subst (asm) refill.simps) simp
      have "\<forall>k<Suc i. k < length nm \<longrightarrow> nm ! k = None \<longrightarrow> \<not> has_next (bs ! k)"
        using "1.prems"(2) f by (auto simp: less_Suc_eq)
      from "1.IH"(3)[OF True f r this] show ?thesis .
    next
      case n: True
      from True n "1.prems"(1) have lb: "\<not> length bs \<le> i"
        by (subst (asm) refill.simps) (auto split: if_splits)
      show ?thesis
      proof (cases "has_next (bs ! i)")
        case h: False
        with True n lb "1.prems"(1) have r: "refill (Suc i) bs nm = Inr (bs', nm')"
          by (subst (asm) refill.simps) simp
        have "\<forall>k<Suc i. k < length nm \<longrightarrow> nm ! k = None \<longrightarrow> \<not> has_next (bs ! k)"
          using "1.prems"(2) h by (auto simp: less_Suc_eq)
        from "1.IH"(2)[OF True n lb h r this] show ?thesis .
      next
        case h: True
        obtain m r where rn: "read_next (bs ! i) = (m, r)" by (cases "read_next (bs ! i)")
        with True n lb h "1.prems"(1)
        have r: "refill (Suc i) (bs[i := r]) (nm[i := Some m]) = Inr (bs', nm')"
          by (subst (asm) refill.simps) simp
        have "\<forall>k<Suc i. k < length (nm[i := Some m]) \<longrightarrow> nm[i := Some m] ! k = None
                \<longrightarrow> \<not> has_next (bs[i := r] ! k)"
          using "1.prems"(2) True by (auto simp: less_Suc_eq nth_list_update)
        from "1.IH"(1)[OF True n lb h rn[symmetric] r this] show ?thesis .
      qed
    qed
  qed
qed

lemma streams_nth:
  "length nm = length bs \<Longrightarrow> k < length bs \<Longrightarrow> streams bs nm ! k = stream (bs ! k) (nm ! k)"
  by (simp add: streams_def)

lemma length_streams: "length nm = length bs \<Longrightarrow> length (streams bs nm) = length bs"
  by (simp add: streams_def)

text \<open>What the two loops of \<^verbatim>\<open>get_next\<close> establish, in terms of the refilled slots.\<close>

lemma get_next_refilled:
  assumes len: "length nm = length bs"
  obtains bs1 nm1 em ei where
    "refill 0 bs nm = Inr (bs1, nm1)"
    "find_earliest 0 nm1 None SIZE_MAX = (em, ei)"
    "length bs1 = length bs" "length nm1 = length bs"
    "streams bs1 nm1 = streams bs nm"
    "map bag bs1 = map bag bs"
    "\<forall>k<length bs. nm1 ! k = None \<longrightarrow> streams bs nm ! k = []"
    "\<forall>k<length bs. \<forall>m. nm1 ! k = Some m \<longrightarrow> streams bs nm ! k = m # remaining (bs1 ! k)"
    "earliest_upto nm1 (length bs) em ei"
proof -
  from refill_ok[of nm bs 0] len obtain bs1 nm1 where r: "refill 0 bs nm = Inr (bs1, nm1)"
    by auto
  obtain em ei where f: "find_earliest 0 nm1 None SIZE_MAX = (em, ei)"
    by (cases "find_earliest 0 nm1 None SIZE_MAX")
  from refill_length[OF r] len have l: "length bs1 = length bs" "length nm1 = length bs" by auto
  have s: "streams bs1 nm1 = streams bs nm" by (rule refill_streams[OF r])
  have full: "\<forall>k<length nm1. nm1 ! k = None \<longrightarrow> \<not> has_next (bs1 ! k)"
    by (rule refill_full[OF r]) simp
  have nth: "streams bs nm ! k = stream (bs1 ! k) (nm1 ! k)" if "k < length bs" for k
    using streams_nth[of nm1 bs1 k] l that by (simp only: s)
  have a: "\<forall>k<length bs. nm1 ! k = None \<longrightarrow> streams bs nm ! k = []"
  proof (intro allI impI)
    fix k assume k: "k < length bs" "nm1 ! k = None"
    with full l have "remaining (bs1 ! k) = []" by (simp add: has_next_def)
    with nth[OF k(1)] k(2) show "streams bs nm ! k = []" by (simp add: stream_def)
  qed
  have b: "\<forall>k<length bs. \<forall>m. nm1 ! k = Some m \<longrightarrow> streams bs nm ! k = m # remaining (bs1 ! k)"
  proof (intro allI impI)
    fix k m assume k: "k < length bs" "nm1 ! k = Some m"
    with nth[OF k(1)] show "streams bs nm ! k = m # remaining (bs1 ! k)" by (simp add: stream_def)
  qed
  from find_earliest_0[OF f] l have e: "earliest_upto nm1 (length bs) em ei" by simp
  from that[OF r f l s refill_bag[OF r] a b e] show ?thesis .
qed

lemma get_next_None:
  assumes len: "length nm = length bs" and ch: "choose_head (streams bs nm) = None"
  shows "\<exists>bs' nm'. get_next bs nm = Inr (None, bs', nm') \<and> length bs' = length bs
           \<and> length nm' = length bs
           \<and> map bag bs' = map bag bs \<and> (\<forall>r\<in>set bs'. remaining r = [])"
proof (rule get_next_refilled[OF len])
  fix bs1 nm1 em ei
  assume r: "refill 0 bs nm = Inr (bs1, nm1)" and
    f: "find_earliest 0 nm1 None SIZE_MAX = (em, ei)" and
    l: "length bs1 = length bs" "length nm1 = length bs" and
    s: "streams bs1 nm1 = streams bs nm" and
    g: "map bag bs1 = map bag bs" and
    b: "\<forall>k<length bs. \<forall>m. nm1 ! k = Some m \<longrightarrow> streams bs nm ! k = m # remaining (bs1 ! k)" and
    e: "earliest_upto nm1 (length bs) em ei"
  from choose_head_None[OF ch] have empty: "\<forall>k<length bs. streams bs nm ! k = []"
    using length_streams[OF len] by (simp add: all_set_conv_all_nth)
  have "em = None"
  proof (cases em)
    case (Some m)
    with e have "ei < length bs" "nm1 ! ei = Some m" by (simp_all add: earliest_upto_def)
    with b have "streams bs nm ! ei = m # remaining (bs1 ! ei)" by blast
    with empty \<open>ei < length bs\<close> show ?thesis by simp
  qed simp
  with r f have gn: "get_next bs nm = Inr (None, bs1, nm1)" by (simp add: get_next_def)
  have "remaining (bs1 ! k) = []" if "k < length bs" for k
  proof -
    have "streams bs1 nm1 ! k = stream (bs1 ! k) (nm1 ! k)"
      using streams_nth[of nm1 bs1 k] l that by simp
    with empty that have "stream (bs1 ! k) (nm1 ! k) = []" by (simp add: s)
    then show ?thesis by (simp add: stream_def)
  qed
  then have "\<forall>r\<in>set bs1. remaining r = []" using l by (auto simp: in_set_conv_nth)
  with gn l g show "\<exists>bs' nm'. get_next bs nm = Inr (None, bs', nm') \<and> length bs' = length bs
           \<and> length nm' = length bs
           \<and> map bag bs' = map bag bs \<and> (\<forall>r\<in>set bs'. remaining r = [])"
    by (intro exI[of _ bs1] exI[of _ nm1] conjI)
qed

lemma get_next_Some:
  assumes len: "length nm = length bs" and ch: "choose_head (streams bs nm) = Some j"
  shows "\<exists>bs' nm'. get_next bs nm = Inr (Some (hd (streams bs nm ! j)), bs', nm')
           \<and> length bs' = length bs \<and> length nm' = length bs \<and> map bag bs' = map bag bs
           \<and> nm' ! j = None
           \<and> streams bs' nm' = (streams bs nm)[j := tl (streams bs nm ! j)]"
proof (rule get_next_refilled[OF len])
  let ?ss = "streams bs nm"
  fix bs1 nm1 em ei
  assume r: "refill 0 bs nm = Inr (bs1, nm1)" and
    f: "find_earliest 0 nm1 None SIZE_MAX = (em, ei)" and
    l: "length bs1 = length bs" "length nm1 = length bs" and
    s: "streams bs1 nm1 = ?ss" and
    g: "map bag bs1 = map bag bs" and
    a: "\<forall>k<length bs. nm1 ! k = None \<longrightarrow> ?ss ! k = []" and
    b: "\<forall>k<length bs. \<forall>m. nm1 ! k = Some m \<longrightarrow> ?ss ! k = m # remaining (bs1 ! k)" and
    e: "earliest_upto nm1 (length bs) em ei"
  have ls: "length ?ss = length bs" by (rule length_streams[OF len])
  from ch have j: "j < length bs" "is_argmin_head ?ss j" "\<forall>i<j. \<not> is_argmin_head ?ss i"
    using ls by (auto simp: choose_head_def find_upt_Some)
  from j(2) have jne: "?ss ! j \<noteq> []" by (simp add: is_argmin_head_def)
  obtain m where em: "em = Some m"
  proof (cases em)
    case None
    with e j(1) have "nm1 ! j = None" by (simp add: earliest_upto_def)
    with a j(1) jne show ?thesis by simp
  qed (use that in blast)
  from e em have ei: "ei < length bs" "nm1 ! ei = Some m"
    and mn: "\<forall>k<length bs. \<forall>m'. nm1 ! k = Some m' \<longrightarrow> time_stamp m \<le> time_stamp m'"
    and st: "\<forall>k<ei. \<forall>m'. nm1 ! k = Some m' \<longrightarrow> time_stamp m < time_stamp m'"
    by (auto simp: earliest_upto_def)
  from b ei have hei: "?ss ! ei = m # remaining (bs1 ! ei)" by simp
  have hd_slot: "nm1 ! k = Some (hd (?ss ! k))" if "k < length bs" "?ss ! k \<noteq> []" for k
    using that a b by (cases "nm1 ! k") auto
  have arg_ei: "is_argmin_head ?ss ei"
    unfolding is_argmin_head_def using ei(1) ls hei mn hd_slot by auto
  have first: "\<not> is_argmin_head ?ss i" if "i < ei" for i
  proof
    assume ai: "is_argmin_head ?ss i"
    then have ne: "?ss ! i \<noteq> []" by (simp add: is_argmin_head_def)
    from that ei(1) have "i < length bs" by simp
    from hd_slot[OF this ne] st that have "time_stamp m < time_stamp (hd (?ss ! i))" by blast
    moreover from ai ei(1) ls hei have "time_stamp (hd (?ss ! i)) \<le> time_stamp m"
      by (auto simp: is_argmin_head_def)
    ultimately show False by simp
  qed
  have "j = ei"
  proof (rule ccontr)
    assume "j \<noteq> ei"
    then consider "j < ei" | "ei < j" by linarith
    then show False
    proof cases
      case 1 with first j(2) show False by blast
    next
      case 2 with j(3) arg_ei show False by blast
    qed
  qed
  with hei have hdj: "hd (?ss ! j) = m" by simp
  from r f em ei l \<open>j = ei\<close> hdj
  have gn: "get_next bs nm = Inr (Some (hd (?ss ! j)), bs1, nm1[j := None])"
    by (simp add: get_next_def)
  have "zip bs1 (nm1[j := None]) = (zip bs1 nm1)[j := (bs1 ! j, None)]"
    by (simp add: update_zip)
  then have "streams bs1 (nm1[j := None]) = (streams bs1 nm1)[j := stream (bs1 ! j) None]"
    by (simp add: streams_def map_update)
  also have "stream (bs1 ! j) None = tl (?ss ! j)"
    using hei \<open>j = ei\<close> by (simp add: stream_def)
  finally have fin: "streams bs1 (nm1[j := None]) = ?ss[j := tl (?ss ! j)]" using s by simp
  have z: "nm1[j := None] ! j = None" using j(1) l by simp
  have ln: "length (nm1[j := None]) = length bs" using l by simp
  show "\<exists>bs' nm'. get_next bs nm = Inr (Some (hd (?ss ! j)), bs', nm')
           \<and> length bs' = length bs \<and> length nm' = length bs \<and> map bag bs' = map bag bs
           \<and> nm' ! j = None
           \<and> streams bs' nm' = ?ss[j := tl (?ss ! j)]"
    using gn l(1) ln g z fin by (intro exI[of _ bs1] exI[of _ "nm1[j := None]"] conjI)
qed

lemma exhausted_readers:
  fixes bs bs' :: "Reader list"
  assumes "length bs' = length bs" "map bag bs' = map bag bs" "\<forall>r\<in>set bs'. remaining r = []"
  shows "bs' = map (\<lambda>r. r\<lparr>remaining := []\<rparr>) bs"
proof (rule nth_equalityI)
  show "length bs' = length (map (\<lambda>r. r\<lparr>remaining := []\<rparr>) bs)" using assms(1) by simp
next
  fix i assume i: "i < length bs'"
  from assms(2) have "map bag bs' ! i = map bag bs ! i" by simp
  with i assms(1) have "bag (bs' ! i) = bag (bs ! i)" by simp
  moreover from i assms(3) have "remaining (bs' ! i) = []" by simp
  ultimately have "bs' ! i = (bs ! i)\<lparr>remaining := []\<rparr>"
    by (cases "bs' ! i", cases "bs ! i") simp
  then show "bs' ! i = map (\<lambda>r. r\<lparr>remaining := []\<rparr>) bs ! i"
    using i assms(1) by simp
qed

lemma rewrite_loop_merge:
  "length nm = length bs \<Longrightarrow>
   rewrite_loop bs nm outs =
     (None, map (\<lambda>r. r\<lparr>remaining := []\<rparr>) bs, map (\<lambda>w. w @ kway_merge (streams bs nm)) outs)"
proof (induction bs nm outs rule: rewrite_loop.induct)
  case (1 bs nm outs)
  show ?case
  proof (cases "choose_head (streams bs nm)")
    case None
    from get_next_None[OF "1.prems" None] obtain bs' nm' where
      gn: "get_next bs nm = Inr (None, bs', nm')" and
      ex: "length bs' = length bs" "map bag bs' = map bag bs" "\<forall>r\<in>set bs'. remaining r = []"
      by blast
    from None have "kway_merge (streams bs nm) = []" by (subst kway_merge.simps) simp
    with gn exhausted_readers[OF ex] show ?thesis
      by (subst rewrite_loop.simps) simp
  next
    case (Some j)
    let ?ss = "streams bs nm"
    from get_next_Some[OF "1.prems" Some] obtain bs' nm' where
      gn: "get_next bs nm = Inr (Some (hd (?ss ! j)), bs', nm')" and
      l: "length bs' = length bs" "length nm' = length bs" and
      g: "map bag bs' = map bag bs" and
      s: "streams bs' nm' = ?ss[j := tl (?ss ! j)]"
      by blast
    from l have "length nm' = length bs'" by simp
    from "1.IH"[OF gn refl refl refl this]
    have ih: "rewrite_loop bs' nm' (map (\<lambda>w. w @ [hd (?ss ! j)]) outs) =
       (None, map (\<lambda>r. r\<lparr>remaining := []\<rparr>) bs',
        map (\<lambda>w. w @ kway_merge (streams bs' nm')) (map (\<lambda>w. w @ [hd (?ss ! j)]) outs))"
      by (simp only: writer_write_def)
    have km: "kway_merge ?ss = hd (?ss ! j) # kway_merge (streams bs' nm')"
      using Some s by (subst kway_merge.simps) simp
    have bg: "map (\<lambda>r. r\<lparr>remaining := []\<rparr>) bs' = map (\<lambda>r. r\<lparr>remaining := []\<rparr>) bs"
    proof (rule nth_equalityI)
      fix i assume "i < length (map (\<lambda>r. r\<lparr>remaining := []\<rparr>) bs')"
      then have i: "i < length bs" using l by simp
      from g have "map bag bs' ! i = map bag bs ! i" by simp
      with i l have "bag (bs' ! i) = bag (bs ! i)" by simp
      then have "(bs' ! i)\<lparr>remaining := []\<rparr> = (bs ! i)\<lparr>remaining := []\<rparr>"
        by (cases "bs' ! i", cases "bs ! i") simp
      with i l show "map (\<lambda>r. r\<lparr>remaining := []\<rparr>) bs' ! i = map (\<lambda>r. r\<lparr>remaining := []\<rparr>) bs ! i"
        by simp
    qed (use l in simp)
    show ?thesis
      by (subst rewrite_loop.simps) (simp add: gn ih km bg writer_write_def comp_def)
  qed
qed

lemma streams_initial: "streams bs (replicate (length bs) None) = map remaining bs"
  by (rule nth_equalityI) (simp_all add: streams_def stream_def)

lemma choose_head_None_iff: "choose_head ss = None \<longleftrightarrow> (\<forall>s\<in>set ss. s = [])"
proof
  assume "choose_head ss = None" then show "\<forall>s\<in>set ss. s = []" by (rule choose_head_None)
next
  assume "\<forall>s\<in>set ss. s = []"
  then have "\<forall>j<length ss. \<not> is_argmin_head ss j" by (simp add: is_argmin_head_def)
  then show "choose_head ss = None" by (simp add: choose_head_def find_upt_None)
qed

lemma streams_all_empty:
  assumes "length nm = length bs"
  shows "(\<forall>s\<in>set (streams bs nm). s = []) \<longleftrightarrow> (\<forall>i<length nm. nm ! i = None \<and> \<not> has_next (bs ! i))"
proof -
  have "(\<forall>s\<in>set (streams bs nm). s = []) \<longleftrightarrow> (\<forall>i<length bs. streams bs nm ! i = [])"
    using length_streams[OF assms] by (simp add: all_set_conv_all_nth)
  also have "\<dots> \<longleftrightarrow> (\<forall>i<length bs. stream (bs ! i) (nm ! i) = [])"
    using streams_nth[OF assms] by simp
  also have "\<dots> \<longleftrightarrow> (\<forall>i<length nm. nm ! i = None \<and> \<not> has_next (bs ! i))"
    using assms by (auto simp: stream_def has_next_def split: option.splits)
  finally show ?thesis .
qed

subsection \<open>Claims about the rewrite merger\<close>

text \<open>Small bags for the examples: a message with an empty payload, and a reader at its start.\<close>

definition msg :: "string \<Rightarrow> int \<Rightarrow> SerializedBagMessage" where
  "msg topic t = \<lparr>topic_name = topic, serialized_data = [], time_stamp = t\<rparr>"

definition reader_of :: "SerializedBagMessage list \<Rightarrow> Reader" where
  "reader_of ms = \<lparr>bag = ms, remaining = ms\<rparr>"

lemma kway_example:
  "kway_merge [[msg ''x'' 10, msg ''x'' 30], [msg ''y'' 20, msg ''y'' 40]]
   = [msg ''x'' 10, msg ''y'' 20, msg ''x'' 30, msg ''y'' 40]"
  by (simp add: kway_merge.simps choose_head_def is_argmin_head_def upt_rec less_Suc_eq nth_Cons'
      msg_def)

text \<open>
  Claim C1.  For a non-empty list of readers, each with a message sequence of non-decreasing
  time stamps, \<^verbatim>\<open>rewrite\<close> appends to every writer the same sequence: the k-way merge of the
  readers' sequences, which always takes the head with the smallest time stamp and, among
  equal time stamps, the one of the smallest reader index.  That sequence is a permutation of
  all the readers' messages and is non-decreasing in \<open>time_stamp\<close>.  When there is a writer,
  \<^verbatim>\<open>rewrite\<close> returns normally and leaves every reader exhausted.
\<close>

theorem rewrite_is_kway_merge:
  assumes "input_bags \<noteq> []"
    and "\<forall>r\<in>set input_bags. sorted (map time_stamp (remaining r))"
  shows "snd (snd (rewrite input_bags output_bags)) =
           map (\<lambda>w. w @ kway_merge (map remaining input_bags)) output_bags
         \<and> (output_bags \<noteq> [] \<longrightarrow>
              rewrite input_bags output_bags =
                (None, map (\<lambda>r. r\<lparr>remaining := []\<rparr>) input_bags,
                 map (\<lambda>w. w @ kway_merge (map remaining input_bags)) output_bags))
         \<and> mset (kway_merge (map remaining input_bags)) = mset (concat (map remaining input_bags))
         \<and> sorted (map time_stamp (kway_merge (map remaining input_bags)))"
proof -
  have a: "rewrite input_bags output_bags =
           (None, map (\<lambda>r. r\<lparr>remaining := []\<rparr>) input_bags,
            map (\<lambda>w. w @ kway_merge (map remaining input_bags)) output_bags)"
    if "output_bags \<noteq> []"
  proof -
    have "rewrite input_bags output_bags =
            rewrite_loop input_bags (replicate (length input_bags) None) output_bags"
      using assms(1) that by (simp add: rewrite_def)
    also have "\<dots> = (None, map (\<lambda>r. r\<lparr>remaining := []\<rparr>) input_bags,
              map (\<lambda>w. w @ kway_merge (map remaining input_bags)) output_bags)"
      using rewrite_loop_merge[of "replicate (length input_bags) None" input_bags output_bags]
      by (simp add: streams_initial)
    finally show ?thesis .
  qed
  have b: "snd (snd (rewrite input_bags output_bags)) =
           map (\<lambda>w. w @ kway_merge (map remaining input_bags)) output_bags"
  proof (cases "output_bags = []")
    case True
    then show ?thesis by (simp add: rewrite_def)
  next
    case False
    from a[OF this] show ?thesis by simp
  qed
  have c: "sorted (map time_stamp (kway_merge (map remaining input_bags)))"
    using assms(2) by (intro sorted_kway_merge) simp
  from a b mset_kway_merge c show ?thesis by blast
qed

theorem rewrite_is_kway_merge_witness:
  "rewrite [reader_of [msg ''x'' 10, msg ''x'' 30], reader_of [msg ''y'' 20, msg ''y'' 40]] [[]]
   = (None,
      [\<lparr>bag = [msg ''x'' 10, msg ''x'' 30], remaining = []\<rparr>,
       \<lparr>bag = [msg ''y'' 20, msg ''y'' 40], remaining = []\<rparr>],
      [[msg ''x'' 10, msg ''y'' 20, msg ''x'' 30, msg ''y'' 40]])"
proof -
  let ?bags = "[reader_of [msg ''x'' 10, msg ''x'' 30], reader_of [msg ''y'' 20, msg ''y'' 40]]"
  have n: "?bags \<noteq> []" by simp
  have h: "\<forall>r\<in>set ?bags. sorted (map time_stamp (remaining r))"
    by (simp add: reader_of_def msg_def)
  have m: "map remaining ?bags = [[msg ''x'' 10, msg ''x'' 30], [msg ''y'' 20, msg ''y'' 40]]"
    by (simp add: reader_of_def)
  from rewrite_is_kway_merge[of ?bags "[[]]", OF n h]
  have "rewrite ?bags [[]] =
          (None, map (\<lambda>r. r\<lparr>remaining := []\<rparr>) ?bags,
           map (\<lambda>w. w @ kway_merge (map remaining ?bags)) [[]])"
    by simp
  then show ?thesis
    by (simp only: m kway_example) (simp add: reader_of_def)
qed

text \<open>
  Claim C2.  When the sequence of readers or the sequence of writers is empty, \<^verbatim>\<open>rewrite\<close>
  throws its runtime error with every reader and writer untouched (nothing read, nothing
  written); when both are non-empty it returns without any error.
\<close>

theorem rewrite_fails_on_empty:
  "(input_bags = [] \<or> output_bags = [] \<longrightarrow>
      rewrite input_bags output_bags =
        (Some (runtime_error ''Must provide at least one input and one output bag to rewrite.''),
         input_bags, output_bags))
   \<and> (input_bags \<noteq> [] \<and> output_bags \<noteq> [] \<longrightarrow> fst (rewrite input_bags output_bags) = None)"
proof -
  have "fst (rewrite input_bags output_bags) = None" if "input_bags \<noteq> []" "output_bags \<noteq> []"
    using that rewrite_loop_merge[of "replicate (length input_bags) None" input_bags output_bags]
    by (simp add: rewrite_def)
  then show ?thesis by (simp add: rewrite_def)
qed

theorem rewrite_fails_on_empty_witness:
  "rewrite [reader_of [msg ''x'' 10]] [] =
     (Some (runtime_error ''Must provide at least one input and one output bag to rewrite.''),
      [reader_of [msg ''x'' 10]], [])
   \<and> rewrite [] [[msg ''x'' 10]] =
     (Some (runtime_error ''Must provide at least one input and one output bag to rewrite.''),
      [], [[msg ''x'' 10]])
   \<and> fst (rewrite [reader_of [msg ''x'' 10]] [[]]) = None"
  using rewrite_fails_on_empty[of "[reader_of [msg ''x'' 10]]" "[]"]
    rewrite_fails_on_empty[of "[]" "[[msg ''x'' 10]]"]
    rewrite_fails_on_empty[of "[reader_of [msg ''x'' 10]]" "[[]]"]
  by simp

text \<open>
  Claim C10.  With one slot per reader, \<^verbatim>\<open>get_next\<close> never indexes outside a vector: it
  always returns a result, although \<^verbatim>\<open>earliest_msg_index\<close> starts at \<^verbatim>\<open>size_t(-1)\<close>.  It
  returns null exactly when every slot is empty and every reader is exhausted.  When it
  returns a message, that message was the head of some reader \<open>j\<close>, slot \<open>j\<close> is empty
  afterwards, and the messages still to be handed out are the former ones less exactly that
  message, so none is returned twice.
\<close>

theorem get_next_index_safe:
  assumes len: "length next_messages = length input_bags"
  shows "\<exists>res bags' slots'.
           get_next input_bags next_messages = Inr (res, bags', slots')
         \<and> length slots' = length next_messages \<and> length bags' = length input_bags
         \<and> (res = None \<longleftrightarrow>
               (\<forall>i<length next_messages. next_messages ! i = None \<and> \<not> has_next (input_bags ! i)))
         \<and> (\<forall>m. res = Some m \<longrightarrow>
               (\<exists>j<length next_messages. slots' ! j = None
                  \<and> streams input_bags next_messages ! j = m # streams bags' slots' ! j)
               \<and> mset (concat (streams bags' slots')) + {#m#}
                   = mset (concat (streams input_bags next_messages)))"
proof (cases "choose_head (streams input_bags next_messages)")
  case None
  from get_next_None[OF len None] obtain bs' nm' where
    gn: "get_next input_bags next_messages = Inr (None, bs', nm')" and l: "length bs' = length input_bags"
    and ln: "length nm' = length input_bags"
    by blast
  from None have "\<forall>i<length next_messages. next_messages ! i = None \<and> \<not> has_next (input_bags ! i)"
    using streams_all_empty[OF len] by (simp add: choose_head_None_iff)
  with gn l ln len show ?thesis by simp
next
  case (Some j)
  let ?ss = "streams input_bags next_messages"
  from get_next_Some[OF len Some] obtain bs' nm' where
    gn: "get_next input_bags next_messages = Inr (Some (hd (?ss ! j)), bs', nm')" and
    l: "length bs' = length input_bags" "length nm' = length input_bags" and
    z: "nm' ! j = None" and
    s: "streams bs' nm' = ?ss[j := tl (?ss ! j)]"
    by blast
  from choose_head_Some[OF Some] have j: "j < length ?ss" "?ss ! j \<noteq> []" by auto
  then have jl: "j < length next_messages" using length_streams[OF len] len by simp
  have ne: "\<not> (\<forall>i<length next_messages. next_messages ! i = None \<and> \<not> has_next (input_bags ! i))"
    using Some streams_all_empty[OF len] choose_head_None_iff[of ?ss] by simp
  have d: "?ss ! j = hd (?ss ! j) # streams bs' nm' ! j"
    using j s by simp
  have ms: "mset (concat (streams bs' nm')) + {#hd (?ss ! j)#} = mset (concat ?ss)"
    using mset_concat_update[OF j] s by simp
  show ?thesis
    using gn l len ne jl z d ms by auto
qed

theorem get_next_index_safe_witness:
  "length [None, Some (msg ''y'' 20)] = length [reader_of [msg ''x'' 10], reader_of []]
   \<and> (\<exists>res bags' slots'.
        get_next [reader_of [msg ''x'' 10], reader_of []] [None, Some (msg ''y'' 20)]
          = Inr (res, bags', slots')
        \<and> res \<noteq> None)"
proof -
  let ?bags = "[reader_of [msg ''x'' 10], reader_of []]"
  let ?slots = "[None, Some (msg ''y'' 20)]"
  have h: "length ?slots = length ?bags" by simp
  have "\<not> (\<forall>i<length ?slots. ?slots ! i = None \<and> \<not> has_next (?bags ! i))"
    by (auto simp: has_next_def reader_of_def)
  with get_next_index_safe[OF h] h show ?thesis by blast
qed

section \<open>The playback engine (\<^verbatim>\<open>player.cpp\<close>)\<close>

text \<open>
  \<^verbatim>\<open>std::future<void> storage_loading_future_\<close>: no shared state (\<open>Invalid\<close>), a producer
  task that has not finished (\<open>Running\<close>), or a finished task whose result, possibly an
  exception, has not been collected yet (\<open>Finished\<close>).
\<close>

datatype future_state = Invalid | Running | Finished "error option"

datatype severity = INFO | WARN | ERROR

text \<open>
  The state of a \<^verbatim>\<open>Player\<close>, as one thread at a time sees it: the model is sequential, and
  the producer thread takes its turns where the consumer sleeps or polls.

  \<open>clock_paused\<close> and \<open>clock_now\<close> stand for the \<^verbatim>\<open>rosbag2_cpp::TimeControllerClock\<close>, which
  is not part of the sources: whether it is paused, and the current bag time.  Its rate is
  left out, as is wall time.  \<open>publishers\<close> holds the topics of \<^verbatim>\<open>publishers_\<close>, \<open>published\<close>
  the messages handed to a publisher, oldest first.  \<open>storage_fault\<close> is the storage error, if
  any, that every call into the \<^verbatim>\<open>Reader\<close> raises as a \<^verbatim>\<open>std::runtime_error\<close>; \<open>rclcpp_ok\<close>
  is the value of \<^verbatim>\<open>rclcpp::ok()\<close>.  \<open>read_ahead_queue_size\<close>, \<open>loop_option\<close> and \<open>delay\<close> are
  the play options that the modelled functions read.
\<close>

record Player =
  reader :: Reader
  storage_fault :: "string option"
  starting_time :: int
  clock_paused :: bool
  clock_now :: int
  message_queue :: "SerializedBagMessage list"
  storage_loading_future :: future_state
  publishers :: "string set"
  published :: "SerializedBagMessage list"
  logger :: "(severity \<times> string) list"
  is_ready_to_play_from_queue :: bool
  skip_message_in_main_play_loop :: bool
  cancel_wait_for_next_message :: bool
  read_ahead_queue_size :: nat
  loop_option :: bool
  delay :: int
  rclcpp_ok :: bool

text \<open>
  A call either returns a value, throws, or never returns because the calling thread waits
  for something that no other thread of the player will do.  The player is mutated in place,
  so the state reached comes with a return and with an exception.
\<close>

datatype 'a outcome = Returns 'a Player | Throws error Player | Blocks

definition log_msg :: "severity \<Rightarrow> string \<Rightarrow> Player \<Rightarrow> Player" where
  "log_msg sev txt p = p\<lparr>logger := logger p @ [(sev, txt)]\<rparr>"

subsection \<open>Reader calls and the producer task\<close>

definition reader_call :: "Player \<Rightarrow> unit outcome" where
  "reader_call p =
     (case storage_fault p of None \<Rightarrow> Returns () p | Some e \<Rightarrow> Throws (runtime_error e) p)"

definition player_reader_seek :: "int \<Rightarrow> Player \<Rightarrow> unit outcome" where
  "player_reader_seek t p =
     (case reader_call p of
        Returns _ p1 \<Rightarrow> Returns () (p1\<lparr>reader := reader_seek t (reader p1)\<rparr>)
      | Throws e p1 \<Rightarrow> Throws e p1
      | Blocks \<Rightarrow> Blocks)"

definition player_reader_has_next :: "Player \<Rightarrow> bool outcome" where
  "player_reader_has_next p =
     (case reader_call p of
        Returns _ p1 \<Rightarrow> Returns (has_next (reader p1)) p1
      | Throws e p1 \<Rightarrow> Throws e p1
      | Blocks \<Rightarrow> Blocks)"

definition player_reader_read_next :: "Player \<Rightarrow> SerializedBagMessage outcome" where
  "player_reader_read_next p =
     (case reader_call p of
        Returns _ p1 \<Rightarrow>
          (case read_next (reader p1) of (m, r) \<Rightarrow> Returns m (p1\<lparr>reader := r\<rparr>))
      | Throws e p1 \<Rightarrow> Throws e p1
      | Blocks \<Rightarrow> Blocks)"

text \<open>
  \<^verbatim>\<open>is_storage_completely_loaded\<close>: a finished task is collected with \<^verbatim>\<open>get()\<close>, which
  releases the shared state and rethrows the exception the task ended with.
\<close>

definition is_storage_completely_loaded :: "Player \<Rightarrow> bool outcome" where
  "is_storage_completely_loaded p =
     (case storage_loading_future p of
        Finished None \<Rightarrow> Returns True (p\<lparr>storage_loading_future := Invalid\<rparr>)
      | Finished (Some e) \<Rightarrow> Throws e (p\<lparr>storage_loading_future := Invalid\<rparr>)
      | Invalid \<Rightarrow> Returns True p
      | Running \<Rightarrow> Returns False p)"

text \<open>The \<^verbatim>\<open>for\<close> loop of \<^verbatim>\<open>enqueue_up_to_boundary\<close>.\<close>

function enqueue_loop :: "nat \<Rightarrow> nat \<Rightarrow> Player \<Rightarrow> unit outcome" where
  "enqueue_loop i boundary p =
     (if i < boundary then
        (case player_reader_has_next p of
           Returns hn p1 \<Rightarrow>
             (if \<not> hn then Returns () p1
              else (case player_reader_read_next p1 of
                      Returns message p2 \<Rightarrow>
                        enqueue_loop (Suc i) boundary
                          (p2\<lparr>message_queue := message_queue p2 @ [message]\<rparr>)
                    | Throws e p2 \<Rightarrow> Throws e p2
                    | Blocks \<Rightarrow> Blocks))
         | Throws e p1 \<Rightarrow> Throws e p1
         | Blocks \<Rightarrow> Blocks)
      else Returns () p)"
  by pat_completeness auto
termination
  by (relation "measure (\<lambda>(i, boundary, p). boundary - i)") auto

declare enqueue_loop.simps [simp del]

definition enqueue_up_to_boundary :: "nat \<Rightarrow> Player \<Rightarrow> unit outcome" where
  "enqueue_up_to_boundary boundary p = enqueue_loop (length (message_queue p)) boundary p"

text \<open>
  Modelled from the spec: \<^verbatim>\<open>read_ahead_lower_bound_percentage_\<close> is declared in the header,
  which is not part of the sources; the specification fixes it at 0.9.  The product is
  truncated to \<^verbatim>\<open>size_t\<close>.
\<close>

definition queue_lower_boundary :: "Player \<Rightarrow> nat" where
  "queue_lower_boundary p = (read_ahead_queue_size p * 9) div 10"


text \<open>The messages still to be played: those queued, then those behind the reader's cursor.\<close>

definition upcoming :: "Player \<Rightarrow> SerializedBagMessage list" where
  "upcoming p = message_queue p @ remaining (reader p)"

lemma reader_call_Returns: "reader_call p = Returns u q \<Longrightarrow> q = p \<and> storage_fault p = None"
  by (auto simp: reader_call_def split: option.splits)

lemma player_reader_has_next_Returns:
  "player_reader_has_next p = Returns b q \<Longrightarrow> q = p \<and> b = has_next (reader p) \<and> storage_fault p = None"
  by (auto simp: player_reader_has_next_def reader_call_def split: option.splits)

lemma player_reader_read_next_Returns:
  "player_reader_read_next p = Returns m q \<Longrightarrow>
     q = p\<lparr>reader := snd (read_next (reader p))\<rparr> \<and> m = fst (read_next (reader p))
     \<and> storage_fault p = None"
  by (auto simp: player_reader_read_next_def reader_call_def split: option.splits prod.splits)

lemma enqueue_loop_remaining_le:
  "enqueue_loop i b p = Returns u q \<Longrightarrow>
   length (remaining (reader q)) \<le> length (remaining (reader p))"
proof (induction i b p rule: enqueue_loop.induct)
  case (1 i b p)
  show ?case
  proof (cases "i < b")
    case False
    with "1.prems" show ?thesis by (subst (asm) enqueue_loop.simps) simp
  next
    case True
    from True "1.prems" obtain hn p1 where h: "player_reader_has_next p = Returns hn p1"
      by (subst (asm) enqueue_loop.simps) (auto split: outcome.splits)
    from player_reader_has_next_Returns[OF h] have p1: "p1 = p" by simp
    show ?thesis
    proof (cases hn)
      case False
      with True h "1.prems" p1 show ?thesis by (subst (asm) enqueue_loop.simps) simp
    next
      case hn: True
      from True h hn "1.prems" obtain m p2 where r: "player_reader_read_next p1 = Returns m p2"
        by (subst (asm) enqueue_loop.simps) (auto split: outcome.splits)
      from True h hn r "1.prems"
      have e: "enqueue_loop (Suc i) b (p2\<lparr>message_queue := message_queue p2 @ [m]\<rparr>) = Returns u q"
        by (subst (asm) enqueue_loop.simps) simp
      from "1.IH"[OF True h _ r e] hn
      have "length (remaining (reader q)) \<le> length (remaining (reader p2))" by simp
      moreover from player_reader_read_next_Returns[OF r] p1
      have "length (remaining (reader p2)) \<le> length (remaining (reader p))"
        by (simp add: read_next_def)
      ultimately show ?thesis by linarith
    qed
  qed
qed

lemma enqueue_loop_remaining_less:
  assumes "i < b" "has_next (reader p)" "enqueue_loop i b p = Returns u q"
  shows "length (remaining (reader q)) < length (remaining (reader p))"
proof -
  from assms(1,3) obtain hn p1 where h: "player_reader_has_next p = Returns hn p1"
    by (subst (asm) enqueue_loop.simps) (auto split: outcome.splits)
  from player_reader_has_next_Returns[OF h] assms(2) have p1: "p1 = p" "hn" by simp_all
  from assms(1,3) h p1 obtain m p2 where r: "player_reader_read_next p1 = Returns m p2"
    by (subst (asm) enqueue_loop.simps) (auto split: outcome.splits)
  from assms(1,3) h p1 r
  have e: "enqueue_loop (Suc i) b (p2\<lparr>message_queue := message_queue p2 @ [m]\<rparr>) = Returns u q"
    by (subst (asm) enqueue_loop.simps) simp
  from enqueue_loop_remaining_le[OF e]
  have "length (remaining (reader q)) \<le> length (remaining (reader p2))" by simp
  moreover from player_reader_read_next_Returns[OF r] p1 assms(2)
  have "length (remaining (reader p2)) < length (remaining (reader p))"
    by (cases "remaining (reader p)") (simp_all add: read_next_def has_next_def)
  ultimately show ?thesis by linarith
qed

lemma queue_lower_boundary_le: "queue_lower_boundary p \<le> read_ahead_queue_size p"
  by (simp add: queue_lower_boundary_def)

text \<open>
  The producer task \<^verbatim>\<open>load_storage_content\<close>, run until it finishes or goes to sleep because
  the queue is filled above the lower boundary.  An exception ends the task and is kept in the
  future.  A task that finds \<^verbatim>\<open>rclcpp::ok()\<close> false or the reader exhausted ends normally.
\<close>

function load_storage_content :: "Player \<Rightarrow> Player" where
  "load_storage_content p =
     (if rclcpp_ok p then
        (case player_reader_has_next p of
           Returns hn p1 \<Rightarrow>
             (if \<not> hn then p1\<lparr>storage_loading_future := Finished None\<rparr>
              else if length (message_queue p1) < queue_lower_boundary p1 then
                (case enqueue_up_to_boundary (read_ahead_queue_size p1) p1 of
                   Returns _ p2 \<Rightarrow> load_storage_content p2
                 | Throws e p2 \<Rightarrow> p2\<lparr>storage_loading_future := Finished (Some e)\<rparr>
                 | Blocks \<Rightarrow> p1)
              else p1)
         | Throws e p1 \<Rightarrow> p1\<lparr>storage_loading_future := Finished (Some e)\<rparr>
         | Blocks \<Rightarrow> p)
      else p\<lparr>storage_loading_future := Finished None\<rparr>)"
  by pat_completeness auto
termination
proof (relation "measure (\<lambda>p. length (remaining (reader p)))")
  show "wf (measure (\<lambda>p. length (remaining (reader p))))" by simp
next
  fix p x21 x22 x21a x22a
  assume ok: "rclcpp_ok p" and h: "player_reader_has_next p = Returns x21 x22"
    and hn: "\<not> \<not> x21" and lt: "length (message_queue x22) < queue_lower_boundary x22"
    and e: "enqueue_up_to_boundary (read_ahead_queue_size x22) x22 = Returns x21a x22a"
  from player_reader_has_next_Returns[OF h] hn have p: "x22 = p" "has_next (reader p)" by simp_all
  from lt queue_lower_boundary_le[of x22]
  have "length (message_queue x22) < read_ahead_queue_size x22" by linarith
  from enqueue_loop_remaining_less[OF this _ e[unfolded enqueue_up_to_boundary_def]] p
  show "(x22a, p) \<in> measure (\<lambda>p. length (remaining (reader p)))" by simp
qed

declare load_storage_content.simps [simp del]

text \<open>
  While the consumer sleeps or polls, the producer thread gets the processor: a running task
  continues until it finishes or sleeps itself.
\<close>

definition producer_turn :: "Player \<Rightarrow> Player" where
  "producer_turn p =
     (if storage_loading_future p = Running then load_storage_content p else p)"

subsection \<open>The consumer side\<close>

text \<open>
  Modelled from the spec: the message queue is a single-producer single-consumer queue from a
  library that is not part of the sources.  \<^verbatim>\<open>peek\<close> yields the head or null without
  removing it; \<^verbatim>\<open>pop\<close> removes the head and tells whether there was one.
\<close>

definition queue_peek :: "Player \<Rightarrow> SerializedBagMessage option" where
  "queue_peek p = (case message_queue p of [] \<Rightarrow> None | m # _ \<Rightarrow> Some m)"

definition queue_pop :: "Player \<Rightarrow> bool \<times> Player" where
  "queue_pop p =
     (case message_queue p of
        [] \<Rightarrow> (False, p)
      | m # ms \<Rightarrow> (True, p\<lparr>message_queue := ms\<rparr>))"

text \<open>
  The polling loop of \<^verbatim>\<open>peek_next_message_from_queue\<close>.  Each sleep of 100 microseconds is a
  turn of the producer.  When the producer sleeps although the queue is empty (its lower
  boundary is zero), a further turn changes nothing and the loop never ends.
\<close>

function starved_loop :: "SerializedBagMessage option \<Rightarrow> Player \<Rightarrow> SerializedBagMessage option outcome" where
  "starved_loop message_ptr p =
     (if message_ptr = None then
        (case is_storage_completely_loaded p of
           Returns loaded p1 \<Rightarrow>
             (if \<not> loaded \<and> rclcpp_ok p1 then
                (let p2 = producer_turn p1 in
                   if message_queue p2 = [] \<and> storage_loading_future p2 = Running
                   then Blocks
                   else starved_loop (queue_peek p2) p2)
              else Returns message_ptr p1)
         | Throws e p1 \<Rightarrow> Throws e p1
         | Blocks \<Rightarrow> Blocks)
      else Returns message_ptr p)"
  by pat_completeness auto
termination
  apply (relation "measure (\<lambda>(ptr, p). if ptr \<noteq> None then 0
                     else if storage_loading_future p \<noteq> Running then 1 else 2)")
   apply simp
  apply (auto simp: is_storage_completely_loaded_def queue_peek_def
      split: future_state.splits option.splits list.splits if_splits)
  done

declare starved_loop.simps [simp del]

definition peek_next_message_from_queue :: "Player \<Rightarrow> SerializedBagMessage option outcome" where
  "peek_next_message_from_queue p =
     (case queue_peek p of
        Some m \<Rightarrow> Returns (Some m) p
      | None \<Rightarrow>
         (case is_storage_completely_loaded p of
            Returns loaded p1 \<Rightarrow>
              (if \<not> loaded \<and> rclcpp_ok p1 then
                 (case starved_loop None
                         (log_msg WARN
                            (''Message queue starved. Messages will be delayed. Consider '' @
                             ''increasing the --read-ahead-queue-size option.'') p1) of
                    Returns message_ptr p2 \<Rightarrow>
                      Returns (if message_ptr = None then queue_peek p2 else message_ptr) p2
                  | Throws e p2 \<Rightarrow> Throws e p2
                  | Blocks \<Rightarrow> Blocks)
               else Returns (queue_peek p1) p1)
          | Throws e p1 \<Rightarrow> Throws e p1
          | Blocks \<Rightarrow> Blocks))"

text \<open>\<^verbatim>\<open>publish_message\<close>: publish on the topic's publisher, if there is one.\<close>

definition publish_message :: "SerializedBagMessage \<Rightarrow> Player \<Rightarrow> bool \<times> Player" where
  "publish_message message p =
     (if topic_name message \<in> publishers p
      then (True, p\<lparr>published := published p @ [message]\<rparr>)
      else (False, p))"

text \<open>
  Modelled from the spec: \<^verbatim>\<open>TimeControllerClock::jump(t)\<close>, not part of the sources, sets the
  current bag time to \<open>t\<close>.
\<close>

definition clock_jump :: "int \<Rightarrow> Player \<Rightarrow> Player" where
  "clock_jump t p = p\<lparr>clock_now := t\<rparr>"

text \<open>
  What loading and peeking may change: the cursor, the queue, the future and the log.  The
  messages still to be played and the bag stay the same.
\<close>

definition producer_frame :: "Player \<Rightarrow> Player \<Rightarrow> bool" where
  "producer_frame p q \<longleftrightarrow>
     (\<exists>r mq f lg. q = p\<lparr>reader := r, message_queue := mq, storage_loading_future := f,
                        logger := lg\<rparr>
        \<and> bag r = bag (reader p) \<and> mq @ remaining r = upcoming p
        \<and> length (message_queue p) \<le> length mq)"

lemma producer_frame_refl: "producer_frame p p"
  unfolding producer_frame_def
  by (rule exI[of _ "reader p"], rule exI[of _ "message_queue p"],
      rule exI[of _ "storage_loading_future p"], rule exI[of _ "logger p"])
     (simp add: upcoming_def)

lemma producer_frame_trans:
  assumes "producer_frame p q" "producer_frame q s"
  shows "producer_frame p s"
proof -
  from assms(1) obtain r mq f lg where
    q: "q = p\<lparr>reader := r, message_queue := mq, storage_loading_future := f, logger := lg\<rparr>"
    and b: "bag r = bag (reader p)" and u: "mq @ remaining r = upcoming p"
    and n: "length (message_queue p) \<le> length mq"
    unfolding producer_frame_def by blast
  from assms(2) obtain r' mq' f' lg' where
    s: "s = q\<lparr>reader := r', message_queue := mq', storage_loading_future := f', logger := lg'\<rparr>"
    and b': "bag r' = bag (reader q)" and u': "mq' @ remaining r' = upcoming q"
    and n': "length (message_queue q) \<le> length mq'"
    unfolding producer_frame_def by blast
  have "s = p\<lparr>reader := r', message_queue := mq', storage_loading_future := f', logger := lg'\<rparr>"
    using q s by simp
  moreover have "bag r' = bag (reader p)" using b b' q by simp
  moreover have "mq' @ remaining r' = upcoming p" using u u' q by (simp add: upcoming_def)
  moreover have "length (message_queue p) \<le> length mq'" using n n' q by simp
  ultimately show ?thesis unfolding producer_frame_def by blast
qed

lemma producer_frame_future:
  assumes "producer_frame p q"
  shows "producer_frame p (q\<lparr>storage_loading_future := f\<rparr>)"
proof -
  from assms obtain r mq f' lg where
    q: "q = p\<lparr>reader := r, message_queue := mq, storage_loading_future := f', logger := lg\<rparr>"
    and b: "bag r = bag (reader p)" "mq @ remaining r = upcoming p"
      "length (message_queue p) \<le> length mq"
    unfolding producer_frame_def by blast
  have "q\<lparr>storage_loading_future := f\<rparr> =
          p\<lparr>reader := r, message_queue := mq, storage_loading_future := f, logger := lg\<rparr>"
    using q by simp
  with b show ?thesis unfolding producer_frame_def by blast
qed

lemma producer_frame_log:
  assumes "producer_frame p q"
  shows "producer_frame p (log_msg sev txt q)"
proof -
  from assms obtain r mq f lg where
    q: "q = p\<lparr>reader := r, message_queue := mq, storage_loading_future := f, logger := lg\<rparr>"
    and b: "bag r = bag (reader p)" "mq @ remaining r = upcoming p"
      "length (message_queue p) \<le> length mq"
    unfolding producer_frame_def by blast
  have "log_msg sev txt q =
          p\<lparr>reader := r, message_queue := mq, storage_loading_future := f,
            logger := lg @ [(sev, txt)]\<rparr>"
    using q by (simp add: log_msg_def)
  with b show ?thesis unfolding producer_frame_def by blast
qed

lemma producer_frame_fields:
  assumes "producer_frame p q"
  shows "upcoming q = upcoming p" "publishers q = publishers p" "published q = published p"
    "clock_now q = clock_now p" "clock_paused q = clock_paused p"
    "rclcpp_ok q = rclcpp_ok p" "storage_fault q = storage_fault p"
    "starting_time q = starting_time p" "read_ahead_queue_size q = read_ahead_queue_size p"
    "is_ready_to_play_from_queue q = is_ready_to_play_from_queue p"
    "skip_message_in_main_play_loop q = skip_message_in_main_play_loop p"
    "cancel_wait_for_next_message q = cancel_wait_for_next_message p"
    "loop_option q = loop_option p" "delay q = delay p" "bag (reader q) = bag (reader p)"
    "length (message_queue p) \<le> length (message_queue q)"
  using assms unfolding producer_frame_def by (auto simp: upcoming_def)

lemma read_next_upcoming:
  assumes "has_next (reader p)"
  shows "producer_frame p
           (p\<lparr>reader := snd (read_next (reader p)),
              message_queue := message_queue p @ [fst (read_next (reader p))]\<rparr>)"
proof -
  from assms obtain m ms where ms: "remaining (reader p) = m # ms"
    by (cases "remaining (reader p)") (auto simp: has_next_def)
  show ?thesis
    unfolding producer_frame_def
    by (rule exI[of _ "snd (read_next (reader p))"],
        rule exI[of _ "message_queue p @ [fst (read_next (reader p))]"],
        rule exI[of _ "storage_loading_future p"], rule exI[of _ "logger p"])
       (simp add: upcoming_def read_next_def ms)
qed

lemma enqueue_loop_frame:
  "enqueue_loop i b p = Returns u q \<or> enqueue_loop i b p = Throws e q \<Longrightarrow> producer_frame p q"
proof (induction i b p rule: enqueue_loop.induct)
  case (1 i b p)
  show ?case
  proof (cases "i < b")
    case False
    with "1.prems" show ?thesis
      by (subst (asm) (1 2) enqueue_loop.simps) (simp add: producer_frame_refl)
  next
    case True
    show ?thesis
    proof (cases "player_reader_has_next p")
      case (Throws e' p1)
      then have "p1 = p"
        by (auto simp: player_reader_has_next_def reader_call_def split: option.splits)
      with True Throws "1.prems" show ?thesis
        by (subst (asm) (1 2) enqueue_loop.simps) (simp add: producer_frame_refl)
    next
      case Blocks
      with True "1.prems" show ?thesis
        by (subst (asm) (1 2) enqueue_loop.simps) simp
    next
      case (Returns hn p1)
      from player_reader_has_next_Returns[OF Returns]
      have p1: "p1 = p" "hn = has_next (reader p)" by simp_all
      show ?thesis
      proof (cases hn)
        case False
        with True Returns "1.prems" p1 show ?thesis
          by (subst (asm) (1 2) enqueue_loop.simps) (simp add: producer_frame_refl)
      next
        case hn: True
        show ?thesis
        proof (cases "player_reader_read_next p1")
          case (Throws e' p2)
          then have "p2 = p1"
            by (auto simp: player_reader_read_next_def reader_call_def
                split: option.splits prod.splits)
          with True Returns hn Throws "1.prems" p1 show ?thesis
            by (subst (asm) (1 2) enqueue_loop.simps) (simp add: producer_frame_refl)
        next
          case Blocks
          with True Returns hn "1.prems" show ?thesis
            by (subst (asm) (1 2) enqueue_loop.simps) simp
        next
          case r: (Returns m p2)
          let ?p3 = "p2\<lparr>message_queue := message_queue p2 @ [m]\<rparr>"
          from True Returns hn r "1.prems"
          have e: "enqueue_loop (Suc i) b ?p3 = Returns u q \<or> enqueue_loop (Suc i) b ?p3 = Throws e q"
            by (subst (asm) (1 2) enqueue_loop.simps) simp
          from "1.IH"[OF True Returns _ r e] hn have f2: "producer_frame ?p3 q" by simp
          from player_reader_read_next_Returns[OF r] p1
          have "?p3 = p\<lparr>reader := snd (read_next (reader p)),
                        message_queue := message_queue p @ [fst (read_next (reader p))]\<rparr>"
            by simp
          with read_next_upcoming[of p] hn p1 have "producer_frame p ?p3" by simp
          from producer_frame_trans[OF this f2] show ?thesis .
        qed
      qed
    qed
  qed
qed

lemma enqueue_up_to_boundary_Returns_frame:
  "enqueue_up_to_boundary b p = Returns u q \<Longrightarrow> producer_frame p q"
  unfolding enqueue_up_to_boundary_def by (rule enqueue_loop_frame) (erule disjI1)

lemma enqueue_up_to_boundary_Throws_frame:
  "enqueue_up_to_boundary b p = Throws e q \<Longrightarrow> producer_frame p q"
  unfolding enqueue_up_to_boundary_def by (rule enqueue_loop_frame) (erule disjI2)

lemma load_storage_content_frame: "producer_frame p (load_storage_content p)"
proof (induction p rule: load_storage_content.induct)
  case (1 p)
  show ?case
  proof (cases "rclcpp_ok p")
    case False
    then show ?thesis
      by (subst load_storage_content.simps)
         (simp add: producer_frame_future[OF producer_frame_refl])
  next
    case ok: True
    show ?thesis
    proof (cases "player_reader_has_next p")
      case (Throws e p1)
      then have "p1 = p"
        by (auto simp: player_reader_has_next_def reader_call_def split: option.splits)
      with ok Throws show ?thesis
        by (subst load_storage_content.simps)
           (simp add: producer_frame_future[OF producer_frame_refl])
    next
      case Blocks
      with ok show ?thesis
        by (subst load_storage_content.simps) (simp add: producer_frame_refl)
    next
      case (Returns hn p1)
      from player_reader_has_next_Returns[OF Returns] have p1: "p1 = p" by simp
      show ?thesis
      proof (cases "hn \<and> length (message_queue p1) < queue_lower_boundary p1")
        case False
        with ok Returns p1 show ?thesis
          by (subst load_storage_content.simps)
             (auto simp: producer_frame_future[OF producer_frame_refl] producer_frame_refl)
      next
        case c: True
        show ?thesis
        proof (cases "enqueue_up_to_boundary (read_ahead_queue_size p1) p1")
          case r: (Returns u p2)
          from enqueue_up_to_boundary_Returns_frame[OF r] p1 have f1: "producer_frame p p2"
            by simp
          from "1.IH"[OF ok Returns _ _ r] c have "producer_frame p2 (load_storage_content p2)"
            by simp
          from producer_frame_trans[OF f1 this] ok Returns c r show ?thesis
            by (subst load_storage_content.simps) simp
        next
          case t: (Throws e p2)
          from enqueue_up_to_boundary_Throws_frame[OF t] p1 have f1: "producer_frame p p2"
            by simp
          from producer_frame_future[OF f1] ok Returns c t show ?thesis
            by (subst load_storage_content.simps) simp
        next
          case Blocks
          with ok Returns c p1 show ?thesis
            by (subst load_storage_content.simps) (simp add: producer_frame_refl)
        qed
      qed
    qed
  qed
qed

lemma producer_turn_frame: "producer_frame p (producer_turn p)"
  by (simp add: producer_turn_def load_storage_content_frame producer_frame_refl)

lemma player_reader_has_next_not_Blocks: "player_reader_has_next p \<noteq> Blocks"
  by (simp add: player_reader_has_next_def reader_call_def split: option.splits)

text \<open>
  A producer that went to sleep stays asleep as long as the consumer does not pop: a further
  turn changes nothing.  This is why a consumer that waits for it to load more never returns.
\<close>

lemma load_storage_content_asleep:
  "storage_loading_future (load_storage_content p) = Running \<Longrightarrow>
   load_storage_content (load_storage_content p) = load_storage_content p"
proof (induction p rule: load_storage_content.induct)
  case (1 p)
  show ?case
  proof (cases "rclcpp_ok p")
    case False
    with "1.prems" show ?thesis by (subst (asm) load_storage_content.simps) simp
  next
    case ok: True
    show ?thesis
    proof (cases "player_reader_has_next p")
      case (Throws e p1)
      with ok "1.prems" show ?thesis by (subst (asm) load_storage_content.simps) simp
    next
      case Blocks
      with player_reader_has_next_not_Blocks show ?thesis by blast
    next
      case (Returns hn p1)
      from player_reader_has_next_Returns[OF Returns] have p1: "p1 = p" by simp
      show ?thesis
      proof (cases hn)
        case False
        with ok Returns "1.prems" show ?thesis by (subst (asm) load_storage_content.simps) simp
      next
        case hn: True
        show ?thesis
        proof (cases "length (message_queue p1) < queue_lower_boundary p1")
          case False
          with ok Returns hn p1 have "load_storage_content p = p"
            by (subst load_storage_content.simps) simp
          then show ?thesis by simp
        next
          case lt: True
          show ?thesis
          proof (cases "enqueue_up_to_boundary (read_ahead_queue_size p1) p1")
            case r: (Returns u p2)
            with ok Returns hn lt have eq: "load_storage_content p = load_storage_content p2"
              by (subst load_storage_content.simps) simp
            with "1.prems" have "storage_loading_future (load_storage_content p2) = Running"
              by simp
            from "1.IH"[OF ok Returns _ lt r this] hn eq show ?thesis by simp
          next
            case (Throws e p2)
            with ok Returns hn lt "1.prems" show ?thesis
              by (subst (asm) load_storage_content.simps) simp
          next
            case Blocks
            with ok Returns hn lt p1 have "load_storage_content p = p"
              by (subst load_storage_content.simps) simp
            then show ?thesis by simp
          qed
        qed
      qed
    qed
  qed
qed

lemma producer_turn_asleep:
  "storage_loading_future (producer_turn p) = Running \<Longrightarrow>
   producer_turn (producer_turn p) = producer_turn p"
  using load_storage_content_asleep[of p] by (auto simp: producer_turn_def)

lemma is_storage_completely_loaded_frame:
  "is_storage_completely_loaded p = Returns b q \<or> is_storage_completely_loaded p = Throws e q
   \<Longrightarrow> producer_frame p q"
  by (auto simp: is_storage_completely_loaded_def producer_frame_refl
      producer_frame_future[OF producer_frame_refl] split: future_state.splits option.splits)

lemma starved_loop_frame:
  "starved_loop ptr p = Returns ptr' q \<or> starved_loop ptr p = Throws e q \<Longrightarrow> producer_frame p q"
proof (induction ptr p rule: starved_loop.induct)
  case (1 ptr p)
  show ?case
  proof (cases "ptr = None")
    case False
    with "1.prems" show ?thesis
      by (subst (asm) (1 2) starved_loop.simps) (simp add: producer_frame_refl)
  next
    case n: True
    show ?thesis
    proof (cases "is_storage_completely_loaded p")
      case (Throws e' p1)
      then have "producer_frame p p1" using is_storage_completely_loaded_frame by blast
      with n Throws "1.prems" show ?thesis
        by (subst (asm) (1 2) starved_loop.simps) simp
    next
      case Blocks
      with n "1.prems" show ?thesis by (subst (asm) (1 2) starved_loop.simps) simp
    next
      case (Returns loaded p1)
      then have f1: "producer_frame p p1" using is_storage_completely_loaded_frame by blast
      show ?thesis
      proof (cases "\<not> loaded \<and> rclcpp_ok p1")
        case False
        with n Returns f1 "1.prems" show ?thesis
          by (subst (asm) (1 2) starved_loop.simps) auto
      next
        case c: True
        let ?p2 = "producer_turn p1"
        have f2: "producer_frame p ?p2"
          by (rule producer_frame_trans[OF f1 producer_turn_frame])
        show ?thesis
        proof (cases "message_queue ?p2 = [] \<and> storage_loading_future ?p2 = Running")
          case True
          with n Returns c "1.prems" show ?thesis
            by (subst (asm) (1 2) starved_loop.simps) (simp add: Let_def)
        next
          case nb: False
          with n Returns c "1.prems"
          have "starved_loop (queue_peek ?p2) ?p2 = Returns ptr' q
                \<or> starved_loop (queue_peek ?p2) ?p2 = Throws e q"
            by (subst (asm) (1 2) starved_loop.simps) (simp add: Let_def)
          from "1.IH"[OF n Returns c refl nb this] have "producer_frame ?p2 q" .
          from producer_frame_trans[OF f2 this] show ?thesis .
        qed
      qed
    qed
  qed
qed

lemma starved_loop_ptr:
  "starved_loop ptr p = Returns ptr' q \<Longrightarrow> ptr = None \<or> ptr = queue_peek p \<Longrightarrow>
   ptr' = None \<or> ptr' = queue_peek q"
proof (induction ptr p rule: starved_loop.induct)
  case (1 ptr p)
  show ?case
  proof (cases "ptr = None")
    case False
    with "1.prems" show ?thesis by (subst (asm) starved_loop.simps) simp
  next
    case n: True
    from n "1.prems"(1) obtain loaded p1 where l: "is_storage_completely_loaded p = Returns loaded p1"
      by (subst (asm) starved_loop.simps) (auto split: outcome.splits)
    show ?thesis
    proof (cases "\<not> loaded \<and> rclcpp_ok p1")
      case False
      with n l "1.prems"(1) show ?thesis by (subst (asm) starved_loop.simps) auto
    next
      case c: True
      let ?p2 = "producer_turn p1"
      from n l c "1.prems"(1)
      have nb: "\<not> (message_queue ?p2 = [] \<and> storage_loading_future ?p2 = Running)"
        by (subst (asm) starved_loop.simps) (auto simp: Let_def split: if_splits)
      with n l c "1.prems"(1)
      have "starved_loop (queue_peek ?p2) ?p2 = Returns ptr' q"
        by (subst (asm) starved_loop.simps) (simp add: Let_def)
      from "1.IH"[OF n l c refl nb this] show ?thesis by simp
    qed
  qed
qed

lemma peek_frame:
  "peek_next_message_from_queue p = Returns ptr q \<or> peek_next_message_from_queue p = Throws e q
   \<Longrightarrow> producer_frame p q"
proof (cases "queue_peek p")
  case (Some m)
  assume "peek_next_message_from_queue p = Returns ptr q \<or> peek_next_message_from_queue p = Throws e q"
  with Some show ?thesis by (simp add: peek_next_message_from_queue_def producer_frame_refl)
next
  case None
  assume a: "peek_next_message_from_queue p = Returns ptr q \<or> peek_next_message_from_queue p = Throws e q"
  show ?thesis
  proof (cases "is_storage_completely_loaded p")
    case (Throws e' p1)
    then have "producer_frame p p1" using is_storage_completely_loaded_frame by blast
    with None Throws a show ?thesis by (simp add: peek_next_message_from_queue_def)
  next
    case Blocks
    with None a show ?thesis by (simp add: peek_next_message_from_queue_def)
  next
    case (Returns loaded p1)
    then have f1: "producer_frame p p1" using is_storage_completely_loaded_frame by blast
    show ?thesis
    proof (cases "\<not> loaded \<and> rclcpp_ok p1")
      case False
      with None Returns f1 a show ?thesis by (auto simp: peek_next_message_from_queue_def)
    next
      case c: True
      let ?p1 = "log_msg WARN
                  (''Message queue starved. Messages will be delayed. Consider '' @
                   ''increasing the --read-ahead-queue-size option.'') p1"
      have f2: "producer_frame p ?p1" by (rule producer_frame_log[OF f1])
      from None Returns c a
      have "(\<exists>ptr'. starved_loop None ?p1 = Returns ptr' q) \<or> starved_loop None ?p1 = Throws e q"
        by (auto simp: peek_next_message_from_queue_def split: outcome.splits)
      then have "producer_frame ?p1 q" using starved_loop_frame by blast
      from producer_frame_trans[OF f2 this] show ?thesis .
    qed
  qed
qed

lemma peek_ptr:
  assumes "peek_next_message_from_queue p = Returns ptr q"
  shows "ptr = queue_peek q"
proof (cases "queue_peek p")
  case (Some m)
  with assms show ?thesis by (simp add: peek_next_message_from_queue_def)
next
  case None
  from None assms obtain loaded p1 where l: "is_storage_completely_loaded p = Returns loaded p1"
    by (auto simp: peek_next_message_from_queue_def split: outcome.splits)
  show ?thesis
  proof (cases "\<not> loaded \<and> rclcpp_ok p1")
    case False
    with None l assms show ?thesis by (auto simp: peek_next_message_from_queue_def)
  next
    case c: True
    let ?p1 = "log_msg WARN
                  (''Message queue starved. Messages will be delayed. Consider '' @
                   ''increasing the --read-ahead-queue-size option.'') p1"
    from None l c assms obtain ptr' where
      s: "starved_loop None ?p1 = Returns ptr' q" and
      p: "ptr = (if ptr' = None then queue_peek q else ptr')"
      by (auto simp: peek_next_message_from_queue_def split: outcome.splits)
    from starved_loop_ptr[OF s] p show ?thesis by auto
  qed
qed

subsection \<open>\<^verbatim>\<open>play_next\<close>\<close>

text \<open>
  The \<^verbatim>\<open>while\<close> loop of \<^verbatim>\<open>play_next\<close>: publish the message under the pointer, jump the clock
  to its time stamp, pop it and peek again, until one message has been published or the
  pointer is null.
\<close>

function play_next_loop ::
  "SerializedBagMessage option \<Rightarrow> bool \<Rightarrow> Player \<Rightarrow> bool outcome" where
  "play_next_loop message_ptr next_message_published p =
     (case message_ptr of
        None \<Rightarrow> Returns next_message_published p
      | Some message \<Rightarrow>
          (if next_message_published then Returns next_message_published p
           else
             (case publish_message message p of (pub, p1) \<Rightarrow>
                (case queue_pop (clock_jump (time_stamp message) p1) of (popped, p2) \<Rightarrow>
                   (case peek_next_message_from_queue p2 of
                      Returns ptr' p3 \<Rightarrow> play_next_loop ptr' pub p3
                    | Throws e p3 \<Rightarrow> Throws e p3
                    | Blocks \<Rightarrow> Blocks)))))"
  by pat_completeness auto
termination
proof (relation "measure (\<lambda>(ptr, pub, p). 2 * length (upcoming p)
                    + (if ptr \<noteq> None \<and> message_queue p = [] then 1 else 0))")
  show "wf (measure (\<lambda>(ptr, pub, p). 2 * length (upcoming p)
                    + (if ptr \<noteq> None \<and> message_queue p = [] then 1 else (0::nat))))"
    by simp
next
  fix message_ptr :: "SerializedBagMessage option" and next_message_published :: bool
    and p message pub p1 popped p2 ptr' p3
  assume m: "message_ptr = Some message" and np: "\<not> next_message_published"
    and pm: "(pub, p1) = publish_message message p"
    and qp: "(popped, p2) = queue_pop (clock_jump (time_stamp message) p1)"
    and pk: "peek_next_message_from_queue p2 = Returns ptr' p3"
  from peek_frame[of p2 ptr' p3] pk have f: "producer_frame p2 p3" by simp
  from peek_ptr[OF pk] have g: "ptr' \<noteq> None \<longrightarrow> message_queue p3 \<noteq> []"
    by (auto simp: queue_peek_def split: list.splits)
  from pm have u1: "upcoming p1 = upcoming p" "message_queue p1 = message_queue p"
    by (auto simp: publish_message_def upcoming_def split: if_splits)
  have "2 * length (upcoming p2) + 0 < 2 * length (upcoming p) + (if message_queue p = [] then 1 else 0)"
    using qp u1 by (cases "message_queue p") (auto simp: queue_pop_def clock_jump_def upcoming_def)
  with producer_frame_fields(1)[OF f] g m
  show "((ptr', pub, p3), message_ptr, next_message_published, p)
          \<in> measure (\<lambda>(ptr, pub, p). 2 * length (upcoming p)
                    + (if ptr \<noteq> None \<and> message_queue p = [] then 1 else 0))"
    by auto
qed

declare play_next_loop.simps [simp del]

text \<open>
  \<^verbatim>\<open>play_next\<close>.  Waiting on the condition variable for \<^verbatim>\<open>is_ready_to_play_from_queue_\<close>
  never ends when the flag is false, since only the thread running \<^verbatim>\<open>play\<close> sets it.
\<close>

definition play_next :: "Player \<Rightarrow> bool outcome" where
  "play_next p =
     (if \<not> clock_paused p then
        Returns False (log_msg WARN ''Called play next, but not in paused state.'' p)
      else
        (let p1 = (log_msg INFO ''Playing next message.'' p)\<lparr>skip_message_in_main_play_loop := True\<rparr>
         in if \<not> is_ready_to_play_from_queue p1 then Blocks
            else
              (case peek_next_message_from_queue p1 of
                 Returns message_ptr p2 \<Rightarrow> play_next_loop message_ptr False p2
               | Throws e p2 \<Rightarrow> Throws e p2
               | Blocks \<Rightarrow> Blocks)))"

lemma queue_peek_Some: "queue_peek p = Some m \<Longrightarrow> \<exists>ms. message_queue p = m # ms"
  by (auto simp: queue_peek_def split: list.splits)

text \<open>
  The effect of the loop of \<^verbatim>\<open>play_next\<close>, whether it returns or an exception leaves it: the
  messages \<open>skipped\<close> were popped without a publisher, those in \<open>pubd\<close> (at most one) were
  published, and the clock stands at the time stamp of the message popped last.
\<close>

definition loop_effect ::
  "Player \<Rightarrow> Player \<Rightarrow> SerializedBagMessage list \<Rightarrow> SerializedBagMessage list \<Rightarrow> bool" where
  "loop_effect p q skipped pubd \<longleftrightarrow>
      upcoming p = skipped @ pubd @ upcoming q
    \<and> published q = published p @ pubd
    \<and> publishers q = publishers p
    \<and> (\<forall>m\<in>set skipped. topic_name m \<notin> publishers p)
    \<and> (\<forall>m\<in>set pubd. topic_name m \<in> publishers p)
    \<and> length pubd \<le> 1
    \<and> clock_now q = (if skipped @ pubd = [] then clock_now p
                      else time_stamp (last (skipped @ pubd)))"

lemma loop_effect_refl: "loop_effect p p [] []"
  by (simp add: loop_effect_def)

lemma loop_effect_frame: "producer_frame p q \<Longrightarrow> loop_effect p q [] []"
  using producer_frame_fields(1,2,3,4)[of p q] by (simp add: loop_effect_def)

lemma loop_effect_published:
  assumes q0: "message_queue p = message # ms" and pub: "topic_name message \<in> publishers p"
    and p2: "p2 = p\<lparr>published := published p @ [message], clock_now := time_stamp message,
                    message_queue := ms\<rparr>"
    and f: "producer_frame p2 q"
  shows "loop_effect p q [] [message]"
proof -
  note ff = producer_frame_fields(1,2,3,4)[OF f]
  have "upcoming p = message # upcoming p2" using p2 q0 by (simp add: upcoming_def)
  moreover have "published p2 = published p @ [message]" "publishers p2 = publishers p"
    "clock_now p2 = time_stamp message" using p2 by simp_all
  ultimately show ?thesis using ff pub by (simp add: loop_effect_def)
qed

lemma loop_effect_skipped:
  assumes q0: "message_queue p = message # ms" and pub: "topic_name message \<notin> publishers p"
    and p2: "p2 = p\<lparr>clock_now := time_stamp message, message_queue := ms\<rparr>"
    and f: "producer_frame p2 p3" and e: "loop_effect p3 q skipped pubd"
  shows "loop_effect p q (message # skipped) pubd"
proof -
  note ff = producer_frame_fields(1,2,3,4)[OF f]
  have a: "upcoming p = message # upcoming p3" using p2 q0 ff(1) by (simp add: upcoming_def)
  have b: "published p3 = published p" "publishers p3 = publishers p"
    "clock_now p3 = time_stamp message" using p2 ff by simp_all
  from e have e1: "upcoming p3 = skipped @ pubd @ upcoming q"
    and e2: "published q = published p3 @ pubd"
    and e3: "publishers q = publishers p3"
    and e4: "\<forall>m\<in>set skipped. topic_name m \<notin> publishers p3"
    and e5: "\<forall>m\<in>set pubd. topic_name m \<in> publishers p3"
    and e6: "length pubd \<le> 1"
    and e7: "clock_now q = (if skipped @ pubd = [] then clock_now p3
                      else time_stamp (last (skipped @ pubd)))"
    by (simp_all add: loop_effect_def)
  have c1: "upcoming p = (message # skipped) @ pubd @ upcoming q" using a e1 by simp
  have c2: "published q = published p @ pubd" using e2 b by simp
  have c3: "publishers q = publishers p" using e3 b by simp
  have c4: "\<forall>m\<in>set (message # skipped). topic_name m \<notin> publishers p" using e4 b pub by simp
  have c5: "\<forall>m\<in>set pubd. topic_name m \<in> publishers p" using e5 b by simp
  have c7: "clock_now q = (if (message # skipped) @ pubd = [] then clock_now p
                      else time_stamp (last ((message # skipped) @ pubd)))"
    using e7 b(3) by (cases "skipped @ pubd = []") auto
  from c1 c2 c3 c4 c5 e6 c7 show ?thesis unfolding loop_effect_def by blast
qed

text \<open>One pass through the body of the loop, up to the pop.\<close>

lemma play_next_body:
  assumes q0: "message_queue p = message # ms"
    and pm: "publish_message message p = (pub, p1)"
    and qp: "queue_pop (clock_jump (time_stamp message) p1) = (popped, p2)"
  shows "pub \<longleftrightarrow> topic_name message \<in> publishers p"
    and "pub \<Longrightarrow> p2 = p\<lparr>published := published p @ [message], clock_now := time_stamp message,
                    message_queue := ms\<rparr>"
    and "\<not> pub \<Longrightarrow> p2 = p\<lparr>clock_now := time_stamp message, message_queue := ms\<rparr>"
  using assms by (auto simp: publish_message_def queue_pop_def clock_jump_def split: if_splits)

lemma play_next_loop_done:
  "ptr = None \<or> pub0 \<Longrightarrow> play_next_loop ptr pub0 p = Returns pub0 p"
  by (subst play_next_loop.simps) (auto split: option.splits)

lemma play_next_loop_effect:
  "play_next_loop ptr pub0 p = Returns b q \<or> play_next_loop ptr pub0 p = Throws e q \<Longrightarrow>
   ptr = queue_peek p \<Longrightarrow>
   \<exists>skipped pubd. loop_effect p q skipped pubd
    \<and> (pub0 \<longrightarrow> skipped = [] \<and> pubd = [])
    \<and> (play_next_loop ptr pub0 p = Returns b q \<longrightarrow> (b \<longleftrightarrow> pub0 \<or> pubd \<noteq> []))"
proof (induction ptr pub0 p rule: play_next_loop.induct)
  case (1 ptr pub0 p)
  show ?case
  proof (cases "ptr = None \<or> pub0")
    case True
    from play_next_loop_done[OF True] "1.prems"(1) have "q = p" "b = pub0" by simp_all
    with loop_effect_refl[of p] show ?thesis by blast
  next
    case False
    then obtain message where m: "ptr = Some message" and np: "\<not> pub0" by auto
    from m "1.prems"(2) queue_peek_Some[of p message] obtain ms where
      q0: "message_queue p = message # ms" by auto
    obtain pub p1 where pm: "publish_message message p = (pub, p1)"
      by (cases "publish_message message p")
    obtain popped p2 where qp: "queue_pop (clock_jump (time_stamp message) p1) = (popped, p2)"
      by (cases "queue_pop (clock_jump (time_stamp message) p1)")
    note body = play_next_body[OF q0 pm qp]
    show ?thesis
    proof (cases "peek_next_message_from_queue p2")
      case Blocks
      with m np pm qp have "play_next_loop ptr pub0 p = Blocks"
        by (subst play_next_loop.simps) simp
      with "1.prems"(1) show ?thesis by simp
    next
      case (Throws e' p3)
      with m np pm qp have t: "play_next_loop ptr pub0 p = Throws e' p3"
        by (subst play_next_loop.simps) simp
      with "1.prems"(1) have q: "q = p3" by simp
      from peek_frame[of p2 _ p3 e'] Throws have f: "producer_frame p2 p3" by simp
      show ?thesis
      proof (cases pub)
        case True
        from loop_effect_published[OF q0 _ body(2)[OF True] f] body(1) True
        have "loop_effect p q [] [message]" using q by simp
        with t np q show ?thesis by auto
      next
        case False
        from loop_effect_skipped[OF q0 _ body(3)[OF False] f loop_effect_refl] body(1) False
        have "loop_effect p q [message] []" using q by simp
        with t np q show ?thesis by auto
      qed
    next
      case (Returns ptr' p3)
      from peek_frame[of p2 ptr' p3] Returns have f: "producer_frame p2 p3" by simp
      from peek_ptr[OF Returns] have cons: "ptr' = queue_peek p3" .
      from m np pm qp Returns
      have step: "play_next_loop ptr pub0 p = play_next_loop ptr' pub p3"
        by (subst play_next_loop.simps) simp
      show ?thesis
      proof (cases pub)
        case True
        from play_next_loop_done[of ptr' pub p3] True step "1.prems"(1)
        have q: "q = p3" "b = True" "play_next_loop ptr pub0 p = Returns b q" by simp_all
        from loop_effect_published[OF q0 _ body(2)[OF True] f] body(1) True
        have "loop_effect p q [] [message]" using q by simp
        with q np show ?thesis by auto
      next
        case False
        from step "1.prems"(1)
        have "play_next_loop ptr' pub p3 = Returns b q \<or> play_next_loop ptr' pub p3 = Throws e q"
          by simp
        from "1.IH"[OF m np pm[symmetric] qp[symmetric] Returns this cons]
        obtain skipped pubd where ih: "loop_effect p3 q skipped pubd"
          "play_next_loop ptr' pub p3 = Returns b q \<longrightarrow> (b \<longleftrightarrow> pub \<or> pubd \<noteq> [])"
          by blast
        from loop_effect_skipped[OF q0 _ body(3)[OF False] f ih(1)] body(1) False
        have "loop_effect p q (message # skipped) pubd" by simp
        with ih(2) step np False show ?thesis by auto
      qed
    qed
  qed
qed



text \<open>
  No storage error is pending: the reader raises none and the producer task has not ended
  with one.
\<close>

definition no_storage_error :: "Player \<Rightarrow> bool" where
  "no_storage_error p \<longleftrightarrow>
     storage_fault p = None \<and>
     (case storage_loading_future p of Finished (Some e) \<Rightarrow> False | _ \<Rightarrow> True)"

lemma player_reader_has_next_ok:
  "storage_fault p = None \<Longrightarrow> player_reader_has_next p = Returns (has_next (reader p)) p"
  by (simp add: player_reader_has_next_def reader_call_def)

lemma player_reader_read_next_ok:
  "storage_fault p = None \<Longrightarrow>
   player_reader_read_next p =
     Returns (fst (read_next (reader p))) (p\<lparr>reader := snd (read_next (reader p))\<rparr>)"
  by (simp add: player_reader_read_next_def reader_call_def split: prod.splits)

lemma enqueue_loop_ok:
  "storage_fault p = None \<Longrightarrow>
   \<exists>q. enqueue_loop i b p = Returns () q
      \<and> storage_loading_future q = storage_loading_future p"
proof (induction i b p rule: enqueue_loop.induct)
  case (1 i b p)
  note h = player_reader_has_next_ok[OF "1.prems"]
  note r = player_reader_read_next_ok[OF "1.prems"]
  show ?case
  proof (cases "i < b \<and> has_next (reader p)")
    case False
    then show ?thesis using h by (subst enqueue_loop.simps) auto
  next
    case True
    let ?m = "fst (read_next (reader p))"
    let ?p2 = "p\<lparr>reader := snd (read_next (reader p))\<rparr>"
    let ?p3 = "?p2\<lparr>message_queue := message_queue ?p2 @ [?m]\<rparr>"
    have "storage_fault ?p3 = None" using "1.prems" by simp
    from "1.IH"[OF _ h _ r this] True
    obtain q where q: "enqueue_loop (Suc i) b ?p3 = Returns () q"
      "storage_loading_future q = storage_loading_future ?p3" by auto
    have "enqueue_loop i b p = enqueue_loop (Suc i) b ?p3"
      using True h r by (subst enqueue_loop.simps) simp
    with q show ?thesis by simp
  qed
qed

lemma load_storage_content_ok:
  "storage_fault p = None \<Longrightarrow>
   storage_loading_future (load_storage_content p) = Finished None
   \<or> (storage_loading_future (load_storage_content p) = storage_loading_future p
      \<and> queue_lower_boundary p \<le> length (message_queue (load_storage_content p)))"
proof (induction p rule: load_storage_content.induct)
  case (1 p)
  note h = player_reader_has_next_ok[OF "1.prems"]
  show ?case
  proof (cases "rclcpp_ok p \<and> has_next (reader p)")
    case False
    then show ?thesis using h by (subst (1 2 3) load_storage_content.simps) auto
  next
    case c: True
    show ?thesis
    proof (cases "length (message_queue p) < queue_lower_boundary p")
      case False
      then show ?thesis using h c by (subst (1 2 3) load_storage_content.simps) auto
    next
      case lt: True
      from enqueue_loop_ok[OF "1.prems"] obtain p2 where
        e: "enqueue_up_to_boundary (read_ahead_queue_size p) p = Returns () p2"
        and f: "storage_loading_future p2 = storage_loading_future p"
        unfolding enqueue_up_to_boundary_def by blast
      from enqueue_up_to_boundary_Returns_frame[OF e] have fr: "producer_frame p p2" .
      note ff = producer_frame_fields[OF fr]
      have eq: "load_storage_content p = load_storage_content p2"
        using h c lt e by (subst load_storage_content.simps) simp
      have "storage_fault p2 = None" using ff "1.prems" by simp
      from "1.IH"[OF _ h _ _ e this] c lt
      have "storage_loading_future (load_storage_content p2) = Finished None
        \<or> (storage_loading_future (load_storage_content p2) = storage_loading_future p2
           \<and> queue_lower_boundary p2 \<le> length (message_queue (load_storage_content p2)))"
        by simp
      moreover have "queue_lower_boundary p2 = queue_lower_boundary p"
        using ff by (simp add: queue_lower_boundary_def)
      ultimately show ?thesis using eq f by auto
    qed
  qed
qed

lemma producer_turn_ok:
  assumes "no_storage_error p"
  shows "no_storage_error (producer_turn p)"
    and "storage_loading_future (producer_turn p) = Running \<Longrightarrow>
         storage_loading_future p = Running \<and>
         queue_lower_boundary p \<le> length (message_queue (producer_turn p))"
proof -
  from assms have sf: "storage_fault p = None" by (simp add: no_storage_error_def)
  have sf': "storage_fault (producer_turn p) = None"
    using producer_frame_fields(7)[OF producer_turn_frame[of p]] sf by simp
  show "no_storage_error (producer_turn p)"
    using load_storage_content_ok[OF sf] assms sf'
    by (auto simp: producer_turn_def no_storage_error_def)
  show "storage_loading_future p = Running \<and>
         queue_lower_boundary p \<le> length (message_queue (producer_turn p))"
    if "storage_loading_future (producer_turn p) = Running"
    using load_storage_content_ok[OF sf] that
    by (auto simp: producer_turn_def split: if_splits)
qed

lemma is_storage_completely_loaded_ok:
  assumes "no_storage_error p"
  shows "\<exists>q. is_storage_completely_loaded p = Returns (storage_loading_future p \<noteq> Running) q
          \<and> no_storage_error q \<and> storage_loading_future q \<noteq> Finished None
          \<and> (storage_loading_future p = Running \<longrightarrow> q = p)"
  using assms
  by (auto simp: is_storage_completely_loaded_def no_storage_error_def
      split: future_state.splits option.splits)

lemma queue_lower_boundary_frame:
  "producer_frame p q \<Longrightarrow> queue_lower_boundary q = queue_lower_boundary p"
  using producer_frame_fields(9)[of p q] by (simp add: queue_lower_boundary_def)

lemma starved_loop_ok:
  "no_storage_error p \<Longrightarrow> 0 < queue_lower_boundary p \<Longrightarrow>
   \<exists>ptr' q. starved_loop ptr p = Returns ptr' q \<and> no_storage_error q"
proof (induction ptr p rule: starved_loop.induct)
  case (1 ptr p)
  show ?case
  proof (cases "ptr = None")
    case False
    then have "starved_loop ptr p = Returns ptr p" by (subst starved_loop.simps) auto
    with "1.prems" show ?thesis by simp
  next
    case n: True
    from is_storage_completely_loaded_ok[OF "1.prems"(1)] obtain p1 where
      l: "is_storage_completely_loaded p = Returns (storage_loading_future p \<noteq> Running) p1"
      and ok1: "no_storage_error p1"
      and same: "storage_loading_future p = Running \<longrightarrow> p1 = p"
      by blast
    show ?thesis
    proof (cases "\<not> (storage_loading_future p \<noteq> Running) \<and> rclcpp_ok p1")
      case False
      with n l ok1 show ?thesis by (subst starved_loop.simps) auto
    next
      case c: True
      with same have p1: "p1 = p" by simp
      let ?p2 = "producer_turn p1"
      note pt = producer_turn_ok[OF ok1]
      have nb: "\<not> (message_queue ?p2 = [] \<and> storage_loading_future ?p2 = Running)"
        using pt(2) "1.prems"(2) p1 by auto
      have lb: "0 < queue_lower_boundary ?p2"
        using queue_lower_boundary_frame[OF producer_turn_frame[of p1]] "1.prems"(2) p1 by simp
      from "1.IH"[OF n l c refl nb pt(1) lb]
      obtain ptr' q where "starved_loop (queue_peek ?p2) ?p2 = Returns ptr' q" "no_storage_error q"
        by blast
      moreover have "starved_loop ptr p = starved_loop (queue_peek ?p2) ?p2"
        using n l c nb by (subst starved_loop.simps) (auto simp: Let_def)
      ultimately show ?thesis by simp
    qed
  qed
qed

lemma no_storage_error_log: "no_storage_error (log_msg sev txt p) = no_storage_error p"
  by (simp add: no_storage_error_def log_msg_def)

lemma peek_ok:
  assumes "no_storage_error p" "0 < queue_lower_boundary p"
  shows "\<exists>ptr q. peek_next_message_from_queue p = Returns ptr q \<and> no_storage_error q
           \<and> 0 < queue_lower_boundary q"
proof -
  have "\<exists>ptr q. peek_next_message_from_queue p = Returns ptr q \<and> no_storage_error q"
  proof (cases "queue_peek p")
    case (Some m)
    with assms show ?thesis by (simp add: peek_next_message_from_queue_def)
  next
    case None
    from is_storage_completely_loaded_ok[OF assms(1)] obtain p1 where
      l: "is_storage_completely_loaded p = Returns (storage_loading_future p \<noteq> Running) p1"
      and ok1: "no_storage_error p1"
      and same: "storage_loading_future p = Running \<longrightarrow> p1 = p"
      by blast
    show ?thesis
    proof (cases "\<not> (storage_loading_future p \<noteq> Running) \<and> rclcpp_ok p1")
      case False
      with None l ok1 show ?thesis by (auto simp: peek_next_message_from_queue_def)
    next
      case c: True
      let ?p1 = "log_msg WARN
                  (''Message queue starved. Messages will be delayed. Consider '' @
                   ''increasing the --read-ahead-queue-size option.'') p1"
      from c same have "p1 = p" by simp
      with assms(2) have "0 < queue_lower_boundary ?p1"
        by (simp add: queue_lower_boundary_def log_msg_def)
      from starved_loop_ok[OF _ this, of None] ok1 obtain ptr' q where
        "starved_loop None ?p1 = Returns ptr' q" "no_storage_error q"
        by (auto simp: no_storage_error_log)
      with None l c show ?thesis by (auto simp: peek_next_message_from_queue_def)
    qed
  qed
  then obtain ptr q where r: "peek_next_message_from_queue p = Returns ptr q" "no_storage_error q"
    by blast
  from peek_frame[of p ptr q] r(1) have "producer_frame p q" by simp
  from queue_lower_boundary_frame[OF this] assms(2) r show ?thesis by auto
qed



text \<open>The state in which \<^verbatim>\<open>play_next\<close> starts to peek, once it is known to be paused.\<close>

definition play_next_entry :: "Player \<Rightarrow> Player" where
  "play_next_entry p =
     (log_msg INFO ''Playing next message.'' p)\<lparr>skip_message_in_main_play_loop := True\<rparr>"

lemma play_next_entry_fields:
  "upcoming (play_next_entry p) = upcoming p"
  "published (play_next_entry p) = published p"
  "publishers (play_next_entry p) = publishers p"
  "clock_now (play_next_entry p) = clock_now p"
  "no_storage_error (play_next_entry p) = no_storage_error p"
  "queue_lower_boundary (play_next_entry p) = queue_lower_boundary p"
  "is_ready_to_play_from_queue (play_next_entry p) = is_ready_to_play_from_queue p"
  by (simp_all add: play_next_entry_def log_msg_def upcoming_def no_storage_error_def
      queue_lower_boundary_def)

lemma play_next_paused:
  "clock_paused p \<Longrightarrow>
   play_next p =
     (if \<not> is_ready_to_play_from_queue p then Blocks
      else (case peek_next_message_from_queue (play_next_entry p) of
              Returns message_ptr p2 \<Rightarrow> play_next_loop message_ptr False p2
            | Throws e p2 \<Rightarrow> Throws e p2
            | Blocks \<Rightarrow> Blocks))"
  by (simp add: play_next_def play_next_entry_def Let_def log_msg_def)

lemma play_next_effect:
  assumes paused: "clock_paused p"
    and res: "play_next p = Returns b q \<or> play_next p = Throws e q"
  shows "\<exists>skipped pubd. loop_effect p q skipped pubd
           \<and> (play_next p = Returns b q \<longrightarrow> (b \<longleftrightarrow> pubd \<noteq> []))"
proof (cases "peek_next_message_from_queue (play_next_entry p)")
  case Blocks
  with res paused show ?thesis by (simp add: play_next_paused split: if_splits)
next
  case (Throws e' p2)
  with res paused have q: "q = p2" "play_next p \<noteq> Returns b q"
    by (simp_all add: play_next_paused split: if_splits)
  from peek_frame[of "play_next_entry p" _ p2 e'] Throws
  have "producer_frame (play_next_entry p) p2" by simp
  from loop_effect_frame[OF this] have "loop_effect p q [] []"
    using q by (simp add: loop_effect_def play_next_entry_fields)
  with q show ?thesis by blast
next
  case (Returns ptr p2)
  with res paused have r: "play_next p = play_next_loop ptr False p2"
    by (simp add: play_next_paused split: if_splits)
  from peek_frame[of "play_next_entry p" ptr p2] Returns
  have "producer_frame (play_next_entry p) p2" by simp
  from loop_effect_frame[OF this] have e0: "loop_effect p p2 [] []"
    by (simp add: loop_effect_def play_next_entry_fields)
  from res r have "play_next_loop ptr False p2 = Returns b q \<or> play_next_loop ptr False p2 = Throws e q"
    by simp
  from play_next_loop_effect[OF this peek_ptr[OF Returns]] obtain skipped pubd where
    e1: "loop_effect p2 q skipped pubd"
    and b: "play_next_loop ptr False p2 = Returns b q \<longrightarrow> (b \<longleftrightarrow> pubd \<noteq> [])"
    by auto
  have "loop_effect p q skipped pubd"
    using e0 e1 unfolding loop_effect_def by simp
  with b r show ?thesis by auto
qed


text \<open>A paused player that is ready, with the whole bag in the queue and the producer done.\<close>

definition paused_player :: "string set \<Rightarrow> SerializedBagMessage list \<Rightarrow> Player" where
  "paused_player topics queue =
     \<lparr>reader = \<lparr>bag = queue, remaining = []\<rparr>, storage_fault = None, starting_time = 0,
      clock_paused = True, clock_now = 0, message_queue = queue,
      storage_loading_future = Invalid, publishers = topics, published = [], logger = [],
      is_ready_to_play_from_queue = True, skip_message_in_main_play_loop = False,
      cancel_wait_for_next_message = False, read_ahead_queue_size = 1000, loop_option = False,
      delay = 0, rclcpp_ok = True\<rparr>"












subsection \<open>\<^verbatim>\<open>seek\<close>\<close>

text \<open>\<^verbatim>\<open>while (message_queue_.pop()) {}\<close>\<close>

function purge_queue :: "Player \<Rightarrow> Player" where
  "purge_queue p = (case queue_pop p of (True, p1) \<Rightarrow> purge_queue p1 | (False, p1) \<Rightarrow> p1)"
  by pat_completeness auto
termination
  by (relation "measure (\<lambda>p. length (message_queue p))")
     (auto simp: queue_pop_def split: list.splits)

declare purge_queue.simps [simp del]

text \<open>
  \<^verbatim>\<open>seek\<close> holds \<^verbatim>\<open>skip_message_in_main_play_loop_mutex_\<close> from its first line to its last, so
  the main play loop does not publish, pop or peek meanwhile.  It holds \<^verbatim>\<open>reader_mutex_\<close> for
  the block that purges the queue, repositions the reader, jumps the clock and restarts the
  producer, so the producer, which takes the same mutex for each round of its loop, reads
  and enqueues nothing in between: these steps follow each other without a turn of the
  producer.  The wait for \<^verbatim>\<open>is_ready_to_play_from_queue_\<close> ends only when \<^verbatim>\<open>play\<close> sets the flag.
\<close>

definition seek :: "int \<Rightarrow> Player \<Rightarrow> unit outcome" where
  "seek time_point p =
     (let p1 = p\<lparr>skip_message_in_main_play_loop := True\<rparr> in
      if \<not> is_ready_to_play_from_queue p1 then Blocks
      else
        (let p2 = p1\<lparr>cancel_wait_for_next_message := True\<rparr>;
             time_point' = (if time_point < starting_time p2 then starting_time p2 else time_point);
             p3 = purge_queue p2
         in case player_reader_seek time_point' p3 of
              Returns _ p4 \<Rightarrow>
                (case is_storage_completely_loaded (clock_jump time_point' p4) of
                   Returns loaded p5 \<Rightarrow>
                     (if loaded \<and> rclcpp_ok p5
                      then Returns () (p5\<lparr>storage_loading_future := Running\<rparr>)
                      else Returns () p5)
                 | Throws e p5 \<Rightarrow> Throws e p5
                 | Blocks \<Rightarrow> Blocks)
            | Throws e p4 \<Rightarrow> Throws e p4
            | Blocks \<Rightarrow> Blocks))"

subsection \<open>\<^verbatim>\<open>play\<close>\<close>

text \<open>
  \<^verbatim>\<open>wait_for_filled_queue\<close>.  Each sleep is a turn of the producer.  A producer that sleeps
  while the queue is below \<^verbatim>\<open>read_ahead_queue_size\<close> will not fill it any further.
\<close>

function wait_for_filled_queue :: "Player \<Rightarrow> unit outcome" where
  "wait_for_filled_queue p =
     (if length (message_queue p) < read_ahead_queue_size p then
        (case is_storage_completely_loaded p of
           Returns loaded p1 \<Rightarrow>
             (if \<not> loaded \<and> rclcpp_ok p1 then
                (let p2 = producer_turn p1 in
                   if length (message_queue p2) < read_ahead_queue_size p2
                      \<and> storage_loading_future p2 = Running
                   then Blocks
                   else wait_for_filled_queue p2)
              else Returns () p1)
         | Throws e p1 \<Rightarrow> Throws e p1
         | Blocks \<Rightarrow> Blocks)
      else Returns () p)"
  by pat_completeness auto
termination
  apply (relation "measure (\<lambda>p. if \<not> length (message_queue p) < read_ahead_queue_size p then 0
                     else if storage_loading_future p \<noteq> Running then 1 else 2)")
   apply simp
  apply (auto simp: is_storage_completely_loaded_def
      split: future_state.splits option.splits if_splits)
  done

declare wait_for_filled_queue.simps [simp del]

text \<open>
  Modelled from the spec: \<^verbatim>\<open>TimeControllerClock::sleep_until(t)\<close>, not part of the sources,
  blocks until bag time has reached \<open>t\<close> and then returns true; it returns false when it is
  interrupted, which in a paused clock is the only way out.  While the consumer sleeps the
  producer runs.
\<close>

definition clock_sleep_until :: "int \<Rightarrow> Player \<Rightarrow> bool \<times> Player" where
  "clock_sleep_until t p =
     (let p1 = producer_turn p in
      if t \<le> clock_now p1 then (True, p1)
      else if clock_paused p1 then (False, p1)
      else (True, p1\<lparr>clock_now := t\<rparr>))"

text \<open>
  The inner loop of \<^verbatim>\<open>play_messages_from_queue\<close>, which waits for the time of the message.
  When \<^verbatim>\<open>sleep_until\<close> returns false and the cancel flag is not set, the next round finds the
  same state, and so on for ever.
\<close>

definition wait_for_message_time :: "SerializedBagMessage \<Rightarrow> Player \<Rightarrow> unit outcome" where
  "wait_for_message_time message p =
     (if \<not> rclcpp_ok p then Returns () p
      else (case clock_sleep_until (time_stamp message) p of
              (True, p1) \<Rightarrow> Returns () p1
            | (False, p1) \<Rightarrow>
                if cancel_wait_for_next_message p1
                then Returns () (p1\<lparr>cancel_wait_for_next_message := False\<rparr>)
                else Blocks))"

lemma wait_for_message_time_frame:
  assumes "wait_for_message_time message p = Returns u q"
  shows "upcoming q = upcoming p"
    "skip_message_in_main_play_loop q = skip_message_in_main_play_loop p"
    "length (message_queue p) \<le> length (message_queue q)"
proof -
  note ff = producer_frame_fields[OF producer_turn_frame[of p]]
  from assms have "q = p \<or> q = producer_turn p \<or> q = (producer_turn p)\<lparr>clock_now := time_stamp message\<rparr>
      \<or> q = (producer_turn p)\<lparr>cancel_wait_for_next_message := False\<rparr>"
    by (auto simp: wait_for_message_time_def clock_sleep_until_def Let_def split: if_splits)
  then show "upcoming q = upcoming p"
    "skip_message_in_main_play_loop q = skip_message_in_main_play_loop p"
    "length (message_queue p) \<le> length (message_queue q)"
    using ff(1,11,16) by (auto simp: upcoming_def)
qed

text \<open>The outer loop of \<^verbatim>\<open>play_messages_from_queue\<close>.\<close>

function play_messages_loop :: "SerializedBagMessage option \<Rightarrow> Player \<Rightarrow> unit outcome" where
  "play_messages_loop message_ptr p =
     (case message_ptr of
        None \<Rightarrow> Returns () p
      | Some message \<Rightarrow>
          (if \<not> rclcpp_ok p then Returns () p
           else
             (case wait_for_message_time message p of
                Returns _ p1 \<Rightarrow>
                  (if rclcpp_ok p1 \<and> skip_message_in_main_play_loop p1 then
                     (case peek_next_message_from_queue
                             (p1\<lparr>skip_message_in_main_play_loop := False,
                                 cancel_wait_for_next_message := False\<rparr>) of
                        Returns ptr' p2 \<Rightarrow> play_messages_loop ptr' p2
                      | Throws e p2 \<Rightarrow> Throws e p2
                      | Blocks \<Rightarrow> Blocks)
                   else
                     (case peek_next_message_from_queue
                             (snd (queue_pop
                                (if rclcpp_ok p1 then snd (publish_message message p1) else p1))) of
                        Returns ptr' p2 \<Rightarrow> play_messages_loop ptr' p2
                      | Throws e p2 \<Rightarrow> Throws e p2
                      | Blocks \<Rightarrow> Blocks))
              | Throws e p1 \<Rightarrow> Throws e p1
              | Blocks \<Rightarrow> Blocks)))"
  by pat_completeness auto
termination
proof (relation "measure (\<lambda>(ptr, p). 3 * length (upcoming p)
                    + (if ptr \<noteq> None \<and> message_queue p = [] then 1 else 0)
                    + (if skip_message_in_main_play_loop p then 1 else 0))")
  show "wf (measure (\<lambda>(ptr, p). 3 * length (upcoming p)
                    + (if ptr \<noteq> None \<and> message_queue p = [] then 1 else 0)
                    + (if skip_message_in_main_play_loop p then 1 else (0::nat))))"
    by simp
next
  fix message_ptr :: "SerializedBagMessage option" and p message u p1 ptr' p2
  assume m: "message_ptr = Some message"
    and w: "wait_for_message_time message p = Returns u p1"
    and s: "rclcpp_ok p1 \<and> skip_message_in_main_play_loop p1"
    and pk: "peek_next_message_from_queue
               (p1\<lparr>skip_message_in_main_play_loop := False,
                   cancel_wait_for_next_message := False\<rparr>) = Returns ptr' p2"
  note wf = wait_for_message_time_frame[OF w]
  from peek_frame[of _ ptr' p2] pk
  have f: "producer_frame (p1\<lparr>skip_message_in_main_play_loop := False,
                   cancel_wait_for_next_message := False\<rparr>) p2" by simp
  note ff = producer_frame_fields[OF f]
  from peek_ptr[OF pk] have g: "ptr' \<noteq> None \<longrightarrow> message_queue p2 \<noteq> []"
    by (auto simp: queue_peek_def split: list.splits)
  have "upcoming p2 = upcoming p" using ff(1) wf(1) by (simp add: upcoming_def)
  moreover have "\<not> skip_message_in_main_play_loop p2" using ff(11) by simp
  moreover have "skip_message_in_main_play_loop p" using s wf(2) by simp
  ultimately show "((ptr', p2), message_ptr, p)
      \<in> measure (\<lambda>(ptr, p). 3 * length (upcoming p)
                    + (if ptr \<noteq> None \<and> message_queue p = [] then 1 else 0)
                    + (if skip_message_in_main_play_loop p then 1 else 0))"
    using g by auto
next
  fix message_ptr :: "SerializedBagMessage option" and p message u p1 ptr' p2
  assume m: "message_ptr = Some message"
    and w: "wait_for_message_time message p = Returns u p1"
    and s: "\<not> (rclcpp_ok p1 \<and> skip_message_in_main_play_loop p1)"
    and pk: "peek_next_message_from_queue
               (snd (queue_pop (if rclcpp_ok p1 then snd (publish_message message p1) else p1)))
             = Returns ptr' p2"
  let ?pp = "if rclcpp_ok p1 then snd (publish_message message p1) else p1"
  let ?p3 = "snd (queue_pop ?pp)"
  note wf = wait_for_message_time_frame[OF w]
  from peek_frame[of ?p3 ptr' p2] pk have f: "producer_frame ?p3 p2" by simp
  note ff = producer_frame_fields[OF f]
  from peek_ptr[OF pk] have g: "ptr' \<noteq> None \<longrightarrow> message_queue p2 \<noteq> []"
    by (auto simp: queue_peek_def split: list.splits)
  have pp: "upcoming ?pp = upcoming p1" "message_queue ?pp = message_queue p1"
    "skip_message_in_main_play_loop ?pp = skip_message_in_main_play_loop p1"
    by (auto simp: publish_message_def upcoming_def)
  have sk: "skip_message_in_main_play_loop p2 = skip_message_in_main_play_loop p"
    using ff(11) pp(3) wf(2) by (auto simp: queue_pop_def split: list.splits)
  have "3 * length (upcoming ?p3) + 1
          \<le> 3 * length (upcoming p) + (if message_queue p = [] then 1 else 0)"
  proof (cases "message_queue p1")
    case Nil
    with wf(3) have "message_queue p = []" by simp
    moreover from Nil pp have "upcoming ?p3 = upcoming p1"
      by (simp add: queue_pop_def)
    ultimately show ?thesis using wf(1) by simp
  next
    case (Cons a as)
    with pp have "length (upcoming p1) = Suc (length (upcoming ?p3))"
      by (simp add: queue_pop_def upcoming_def)
    with wf(1) show ?thesis by simp
  qed
  with ff(1) sk g m show "((ptr', p2), message_ptr, p)
      \<in> measure (\<lambda>(ptr, p). 3 * length (upcoming p)
                    + (if ptr \<noteq> None \<and> message_queue p = [] then 1 else 0)
                    + (if skip_message_in_main_play_loop p then 1 else 0))"
    by auto
qed

declare play_messages_loop.simps [simp del]

subsection \<open>What the main play loop publishes\<close>

lemma producer_frame_prefix:
  assumes "producer_frame p q"
  shows "\<exists>ms. message_queue q = message_queue p @ ms"
proof -
  from assms obtain r mq f lg where
    q: "q = p\<lparr>reader := r, message_queue := mq, storage_loading_future := f, logger := lg\<rparr>"
    and u: "mq @ remaining r = upcoming p"
    and n: "length (message_queue p) \<le> length mq"
    unfolding producer_frame_def by blast
  from u have "message_queue p @ remaining (reader p) = mq @ remaining r"
    by (simp add: upcoming_def)
  with n have "message_queue p = take (length (message_queue p)) mq"
    by (simp add: append_eq_append_conv_if)
  then have "mq = message_queue p @ drop (length (message_queue p)) mq"
    by (metis append_take_drop_id)
  with q show ?thesis by auto
qed

lemma wait_for_message_time_cases:
  assumes "wait_for_message_time message p = Returns u q"
  shows "q = p \<or> q = producer_turn p
      \<or> q = (producer_turn p)\<lparr>clock_now := time_stamp message\<rparr>
      \<or> q = (producer_turn p)\<lparr>cancel_wait_for_next_message := False\<rparr>"
  using assms
  by (auto simp: wait_for_message_time_def clock_sleep_until_def Let_def split: if_splits)

lemma wait_for_message_time_fields:
  assumes "wait_for_message_time message p = Returns u q"
  shows "published q = published p" "publishers q = publishers p"
    "rclcpp_ok q = rclcpp_ok p" "clock_paused q = clock_paused p"
    "\<exists>ms. message_queue q = message_queue p @ ms"
    "queue_lower_boundary q = queue_lower_boundary p"
    "no_storage_error p \<Longrightarrow> no_storage_error q"
proof -
  note ff = producer_frame_fields[OF producer_turn_frame[of p]]
  note c = wait_for_message_time_cases[OF assms]
  from c show "published q = published p" using ff(3) by auto
  from c show "publishers q = publishers p" using ff(2) by auto
  from c show "rclcpp_ok q = rclcpp_ok p" using ff(6) by auto
  from c show "clock_paused q = clock_paused p" using ff(5) by auto
  from c show "\<exists>ms. message_queue q = message_queue p @ ms"
    using producer_frame_prefix[OF producer_turn_frame[of p]] by auto
  from c show "queue_lower_boundary q = queue_lower_boundary p"
    using ff(9) by (auto simp: queue_lower_boundary_def)
  from c show "no_storage_error q" if "no_storage_error p"
    using producer_turn_ok(1)[OF that] that by (auto simp: no_storage_error_def)
qed

lemma wait_for_message_time_no_throw:
  "wait_for_message_time message p \<noteq> Throws e q"
  by (auto simp: wait_for_message_time_def clock_sleep_until_def Let_def split: if_splits)

lemma wait_for_message_time_ok:
  assumes "\<not> clock_paused p"
  shows "\<exists>q. wait_for_message_time message p = Returns () q"
  using assms producer_frame_fields(5)[OF producer_turn_frame[of p]]
  by (auto simp: wait_for_message_time_def clock_sleep_until_def Let_def)

lemma play_messages_loop_done:
  "ptr = None \<or> \<not> rclcpp_ok p \<Longrightarrow> play_messages_loop ptr p = Returns () p"
  by (subst play_messages_loop.simps) (auto split: option.splits)

text \<open>
  The main play loop publishes messages that are still to be played, and no others, when the
  message it holds is the head of the queue or when the flag is set that makes it drop that
  message and peek again.
\<close>

lemma play_messages_loop_published:
  "play_messages_loop ptr p = Returns u r \<or> play_messages_loop ptr p = Throws e r \<Longrightarrow>
   ptr = queue_peek p \<or> skip_message_in_main_play_loop p \<Longrightarrow>
   \<exists>pubd. published r = published p @ pubd \<and> set pubd \<subseteq> set (upcoming p)"
proof (induction ptr p rule: play_messages_loop.induct)
  case (1 ptr p)
  show ?case
  proof (cases "ptr = None \<or> \<not> rclcpp_ok p")
    case True
    from play_messages_loop_done[OF True] "1.prems"(1) have "r = p" by simp
    then show ?thesis by simp
  next
    case False
    then obtain message where m: "ptr = Some message" and ok: "rclcpp_ok p" by auto
    show ?thesis
    proof (cases "wait_for_message_time message p")
      case Blocks
      with m ok have "play_messages_loop ptr p = Blocks"
        by (subst play_messages_loop.simps) simp
      with "1.prems"(1) show ?thesis by simp
    next
      case (Throws e' p1)
      with wait_for_message_time_no_throw show ?thesis by blast
    next
      case (Returns u1 p1)
      note wf = wait_for_message_time_frame[OF Returns]
      note wg = wait_for_message_time_fields[OF Returns]
      from ok wg(3) have ok1: "rclcpp_ok p1" by simp
      show ?thesis
      proof (cases "skip_message_in_main_play_loop p1")
        case True
        let ?p1 = "p1\<lparr>skip_message_in_main_play_loop := False,
                       cancel_wait_for_next_message := False\<rparr>"
        have p1': "upcoming ?p1 = upcoming p" "published ?p1 = published p"
          using wf(1) wg(1) by (simp_all add: upcoming_def)
        show ?thesis
        proof (cases "peek_next_message_from_queue ?p1")
          case Blocks
          with m ok Returns ok1 True have "play_messages_loop ptr p = Blocks"
            by (subst play_messages_loop.simps) simp
          with "1.prems"(1) show ?thesis by simp
        next
          case (Throws e' p2)
          with m ok Returns ok1 True have "play_messages_loop ptr p = Throws e' p2"
            by (subst play_messages_loop.simps) simp
          with "1.prems"(1) have r: "r = p2" by simp
          from peek_frame[of ?p1 _ p2 e'] Throws have "producer_frame ?p1 p2" by simp
          from producer_frame_fields(3)[OF this] p1' r show ?thesis by simp
        next
          case pk: (Returns ptr' p2)
          with m ok Returns ok1 True
          have step: "play_messages_loop ptr p = play_messages_loop ptr' p2"
            by (subst play_messages_loop.simps) simp
          from peek_frame[of ?p1 ptr' p2] pk have f: "producer_frame ?p1 p2" by simp
          note ff = producer_frame_fields(1,3)[OF f]
          from step "1.prems"(1)
          have "play_messages_loop ptr' p2 = Returns u r \<or> play_messages_loop ptr' p2 = Throws e r"
            by simp
          moreover have "ptr' = queue_peek p2 \<or> skip_message_in_main_play_loop p2"
            using peek_ptr[OF pk] by simp
          ultimately have "\<exists>pubd. published r = published p2 @ pubd
                \<and> set pubd \<subseteq> set (upcoming p2)"
            using "1.IH"(1) m ok Returns ok1 True pk by blast
          with ff p1' show ?thesis by simp
        qed
      next
        case False
        with wf(2) "1.prems"(2) have "ptr = queue_peek p" by simp
        with m queue_peek_Some[of p message] obtain ms where
          q0: "message_queue p = message # ms" by auto
        with wg(5) obtain ms' where q1: "message_queue p1 = message # ms'" by auto
        let ?pubd = "if topic_name message \<in> publishers p then [message] else []"
        let ?p3 = "snd (queue_pop (if rclcpp_ok p1 then snd (publish_message message p1) else p1))"
        have u1: "upcoming p = message # upcoming ?p3"
          using q1 wf(1) ok1 by (simp add: queue_pop_def publish_message_def upcoming_def)
        have pb: "published ?p3 = published p @ ?pubd"
          using q1 wg(1,2) ok1 by (simp add: queue_pop_def publish_message_def)
        show ?thesis
        proof (cases "peek_next_message_from_queue ?p3")
          case Blocks
          with m ok Returns ok1 False have "play_messages_loop ptr p = Blocks"
            by (subst play_messages_loop.simps) simp
          with "1.prems"(1) show ?thesis by simp
        next
          case (Throws e' p2)
          with m ok Returns ok1 False have "play_messages_loop ptr p = Throws e' p2"
            by (subst play_messages_loop.simps) simp
          with "1.prems"(1) have r: "r = p2" by simp
          from peek_frame[of ?p3 _ p2 e'] Throws have "producer_frame ?p3 p2" by simp
          from producer_frame_fields(3)[OF this] r pb
          have "published r = published p @ ?pubd" by simp
          moreover have "message \<in> set (upcoming p)" by (subst u1) simp
          then have "set ?pubd \<subseteq> set (upcoming p)" by auto
          ultimately show ?thesis by blast
        next
          case pk: (Returns ptr' p2)
          with m ok Returns ok1 False
          have step: "play_messages_loop ptr p = play_messages_loop ptr' p2"
            by (subst play_messages_loop.simps) simp
          from peek_frame[of ?p3 ptr' p2] pk have f: "producer_frame ?p3 p2" by simp
          note ff = producer_frame_fields(1,3)[OF f]
          from step "1.prems"(1)
          have "play_messages_loop ptr' p2 = Returns u r \<or> play_messages_loop ptr' p2 = Throws e r"
            by simp
          moreover have "ptr' = queue_peek p2 \<or> skip_message_in_main_play_loop p2"
            using peek_ptr[OF pk] by simp
          moreover have "\<not> (rclcpp_ok p1 \<and> skip_message_in_main_play_loop p1)"
            using False by simp
          ultimately obtain pubd' where pd: "published r = published p2 @ pubd'"
            "set pubd' \<subseteq> set (upcoming p2)"
            using "1.IH"(2) m ok Returns pk by blast
          from pd(1) ff(2) pb have "published r = published p @ (?pubd @ pubd')" by simp
          moreover have "upcoming p = message # upcoming p2" unfolding ff(1) by (rule u1)
          with pd(2) have "set (?pubd @ pubd') \<subseteq> set (upcoming p)" by auto
          ultimately show ?thesis by blast
        qed
      qed
    qed
  qed
qed

text \<open>
  With the clock running, the producer making progress and no storage error pending, the main
  play loop comes to its end.
\<close>

lemma play_messages_loop_ok:
  "no_storage_error p \<Longrightarrow> 0 < queue_lower_boundary p \<Longrightarrow> \<not> clock_paused p \<Longrightarrow>
   \<exists>r. play_messages_loop ptr p = Returns () r"
proof (induction ptr p rule: play_messages_loop.induct)
  case (1 ptr p)
  show ?case
  proof (cases "ptr = None \<or> \<not> rclcpp_ok p")
    case True
    from play_messages_loop_done[OF True] show ?thesis by simp
  next
    case False
    then obtain message where m: "ptr = Some message" and ok: "rclcpp_ok p" by auto
    from wait_for_message_time_ok[OF "1.prems"(3), of message] obtain p1 where
      w: "wait_for_message_time message p = Returns () p1" by blast
    note wg = wait_for_message_time_fields[OF w]
    from ok wg(3) have ok1: "rclcpp_ok p1" by simp
    from wg(7)[OF "1.prems"(1)] have ns1: "no_storage_error p1" .
    from wg(6) "1.prems"(2) have lb1: "0 < queue_lower_boundary p1" by simp
    from wg(4) "1.prems"(3) have np1: "\<not> clock_paused p1" by simp
    show ?thesis
    proof (cases "skip_message_in_main_play_loop p1")
      case True
      let ?p1 = "p1\<lparr>skip_message_in_main_play_loop := False,
                     cancel_wait_for_next_message := False\<rparr>"
      have "no_storage_error ?p1" "0 < queue_lower_boundary ?p1" "\<not> clock_paused ?p1"
        using ns1 lb1 np1 by (simp_all add: no_storage_error_def queue_lower_boundary_def)
      with peek_ok[of ?p1] obtain ptr' p2 where
        pk: "peek_next_message_from_queue ?p1 = Returns ptr' p2"
        and ok2: "no_storage_error p2" "0 < queue_lower_boundary p2" by blast
      from peek_frame[of ?p1 ptr' p2] pk have f: "producer_frame ?p1 p2" by simp
      from producer_frame_fields(5)[OF f] np1 have np2: "\<not> clock_paused p2" by simp
      from m ok w ok1 True pk
      have step: "play_messages_loop ptr p = play_messages_loop ptr' p2"
        by (subst play_messages_loop.simps) simp
      have "\<exists>r. play_messages_loop ptr' p2 = Returns () r"
        using "1.IH"(1) m ok w ok1 True pk ok2 np2 by blast
      with step show ?thesis by simp
    next
      case False
      let ?p3 = "snd (queue_pop (if rclcpp_ok p1 then snd (publish_message message p1) else p1))"
      have "no_storage_error ?p3" "0 < queue_lower_boundary ?p3" "\<not> clock_paused ?p3"
        using ns1 lb1 np1
        by (auto simp: no_storage_error_def queue_lower_boundary_def queue_pop_def
            publish_message_def split: list.splits)
      with peek_ok[of ?p3] obtain ptr' p2 where
        pk: "peek_next_message_from_queue ?p3 = Returns ptr' p2"
        and ok2: "no_storage_error p2" "0 < queue_lower_boundary p2" by blast
      from peek_frame[of ?p3 ptr' p2] pk have f: "producer_frame ?p3 p2" by simp
      from producer_frame_fields(5)[OF f] \<open>\<not> clock_paused ?p3\<close>
      have np2: "\<not> clock_paused p2" by simp
      from m ok w ok1 False pk
      have step: "play_messages_loop ptr p = play_messages_loop ptr' p2"
        by (subst play_messages_loop.simps) simp
      have "\<not> (rclcpp_ok p1 \<and> skip_message_in_main_play_loop p1)" using False by simp
      then have "\<exists>r. play_messages_loop ptr' p2 = Returns () r"
        using "1.IH"(2) m ok w pk ok2 np2 by blast
      with step show ?thesis by simp
    qed
  qed
qed

definition play_messages_from_queue :: "Player \<Rightarrow> unit outcome" where
  "play_messages_from_queue p =
     (case peek_next_message_from_queue p of
        Returns message_ptr p1 \<Rightarrow>
          (case play_messages_loop message_ptr (p1\<lparr>is_ready_to_play_from_queue := True\<rparr>) of
             Returns _ p2 \<Rightarrow> if clock_paused p2 then Blocks else Returns () p2
           | Throws e p2 \<Rightarrow> Throws e p2
           | Blocks \<Rightarrow> Blocks)
      | Throws e p1 \<Rightarrow> Throws e p1
      | Blocks \<Rightarrow> Blocks)"

text \<open>Decimal rendering of the numbers that appear in log messages.\<close>

function show_nat :: "nat \<Rightarrow> string" where
  "show_nat n = (if n < 10 then [''0123456789'' ! n]
                 else show_nat (n div 10) @ [''0123456789'' ! (n mod 10)])"
  by pat_completeness auto
termination
  by (relation "measure (\<lambda>n. n)") auto

declare show_nat.simps [simp del]

definition show_int :: "int \<Rightarrow> string" where
  "show_int i = (if i < 0 then ''-'' @ show_nat (nat (- i)) else show_nat (nat i))"

text \<open>One pass through the body of the \<^verbatim>\<open>do\<close> loop of \<^verbatim>\<open>play\<close>.\<close>

definition play_pass :: "int \<Rightarrow> Player \<Rightarrow> unit outcome" where
  "play_pass delay_ns p =
     (let p0 = (if 0 < delay_ns
                then producer_turn (log_msg INFO (''Sleep '' @ show_int delay_ns @ '' ns'') p)
                else p)
      in case player_reader_seek (starting_time p0) p0 of
           Returns _ p1 \<Rightarrow>
             (case wait_for_filled_queue
                     ((clock_jump (starting_time p1) p1)\<lparr>storage_loading_future := Running\<rparr>) of
                Returns _ p2 \<Rightarrow>
                  (case play_messages_from_queue p2 of
                     Returns _ p3 \<Rightarrow> Returns () (p3\<lparr>is_ready_to_play_from_queue := False\<rparr>)
                   | Throws e p3 \<Rightarrow> Throws e p3
                   | Blocks \<Rightarrow> Blocks)
              | Throws e p2 \<Rightarrow> Throws e p2
              | Blocks \<Rightarrow> Blocks)
         | Throws e p1 \<Rightarrow> Throws e p1
         | Blocks \<Rightarrow> Blocks)"

text \<open>
  The \<^verbatim>\<open>do ... while (rclcpp::ok() && play_options_.loop)\<close> loop.  With the loop option set
  it need not end, so the number of passes is bounded by a counter; \<open>None\<close> means that the
  loop is still running after that many passes.
\<close>

primrec play_do_while :: "nat \<Rightarrow> int \<Rightarrow> Player \<Rightarrow> unit outcome option" where
  "play_do_while 0 delay_ns p = None"
| "play_do_while (Suc n) delay_ns p =
     (case play_pass delay_ns p of
        Returns _ p1 \<Rightarrow>
          if rclcpp_ok p1 \<and> loop_option p1 then play_do_while n delay_ns p1
          else Some (Returns () p1)
      | Throws e p1 \<Rightarrow> Some (Throws e p1)
      | Blocks \<Rightarrow> Some Blocks)"

text \<open>The delay that \<^verbatim>\<open>play\<close> uses, and the warning about a negative one.\<close>

definition play_delay :: "Player \<Rightarrow> int \<times> Player" where
  "play_delay p =
     (if 0 \<le> delay p then (delay p, p)
      else (0, log_msg WARN
                 (''Invalid delay value: '' @ show_int (delay p) @ ''. Delay is disabled.'') p))"

text \<open>
  \<^verbatim>\<open>play\<close>: the loop runs inside \<^verbatim>\<open>try\<close>; a \<^verbatim>\<open>std::runtime_error\<close> is caught and logged.
  After the \<^verbatim>\<open>try\<close> statement the readiness flag is cleared and the waiters are notified.
\<close>

definition play :: "nat \<Rightarrow> Player \<Rightarrow> unit outcome option" where
  "play passes p =
     (case play_delay p of (delay_ns, p0) \<Rightarrow>
        (case play_do_while passes delay_ns p0 of
           None \<Rightarrow> None
         | Some (Returns _ p1) \<Rightarrow>
             Some (Returns () (p1\<lparr>is_ready_to_play_from_queue := False\<rparr>))
         | Some (Throws (runtime_error e) p1) \<Rightarrow>
             Some (Returns ()
               ((log_msg ERROR (''Failed to play: '' @ e) p1)
                  \<lparr>is_ready_to_play_from_queue := False\<rparr>))
         | Some (Throws undefined_behavior p1) \<Rightarrow> Some (Throws undefined_behavior p1)
         | Some Blocks \<Rightarrow> Some Blocks))"

lemma purge_queue_eq: "purge_queue p = p\<lparr>message_queue := []\<rparr>"
proof (induction p rule: purge_queue.induct)
  case (1 p)
  show ?case
  proof (cases "message_queue p")
    case Nil
    then show ?thesis by (subst purge_queue.simps) (simp add: queue_pop_def)
  next
    case (Cons m ms)
    with "1.IH"[of True "p\<lparr>message_queue := ms\<rparr>"] show ?thesis
      by (subst purge_queue.simps) (simp add: queue_pop_def)
  qed
qed

text \<open>The time to which \<^verbatim>\<open>seek\<close> moves: the request, clamped below to the start of the bag.\<close>

definition seek_target :: "int \<Rightarrow> Player \<Rightarrow> int" where
  "seek_target time_point p = (if time_point < starting_time p then starting_time p else time_point)"

lemma seek_target_max: "seek_target t p = max t (starting_time p)"
  by (simp add: seek_target_def max_def)

lemma seek_Returns:
  assumes "is_ready_to_play_from_queue p" "no_storage_error p"
  shows "seek t p = Returns ()
           (p\<lparr>skip_message_in_main_play_loop := True, cancel_wait_for_next_message := True,
              message_queue := [],
              reader := reader_seek (seek_target t p) (reader p),
              clock_now := seek_target t p,
              storage_loading_future :=
                (if storage_loading_future p = Running \<or> rclcpp_ok p then Running else Invalid)\<rparr>)"
proof -
  from assms(2) have sf: "storage_fault p = None"
    and fut: "storage_loading_future p = Invalid \<or> storage_loading_future p = Running
              \<or> storage_loading_future p = Finished None"
    by (auto simp: no_storage_error_def split: future_state.splits option.splits)
  from fut show ?thesis
    using assms(1) sf
    by (auto simp: seek_def Let_def purge_queue_eq player_reader_seek_def reader_call_def
        clock_jump_def is_storage_completely_loaded_def seek_target_def)
qed

lemma seek_Returns_only:
  assumes "seek t p = Returns u q"
  shows "is_ready_to_play_from_queue p \<and> no_storage_error p"
proof -
  from assms have r: "is_ready_to_play_from_queue p"
    by (auto simp: seek_def Let_def split: if_splits)
  from assms have sf: "storage_fault p = None"
    by (auto simp: seek_def Let_def purge_queue_eq player_reader_seek_def reader_call_def
        split: if_splits option.splits)
  from assms r sf have "\<forall>e. storage_loading_future p \<noteq> Finished (Some e)"
    by (auto simp: seek_def Let_def purge_queue_eq player_reader_seek_def reader_call_def
        clock_jump_def is_storage_completely_loaded_def)
  with r sf show ?thesis
    by (auto simp: no_storage_error_def split: future_state.splits option.splits)
qed

text \<open>What \<^verbatim>\<open>seek\<close> does when the reader or the finished producer task raises a storage error.\<close>

lemma seek_Throws_reader:
  assumes "is_ready_to_play_from_queue p" "storage_fault p = Some e"
  shows "seek t p = Throws (runtime_error e)
           (p\<lparr>skip_message_in_main_play_loop := True, cancel_wait_for_next_message := True,
              message_queue := []\<rparr>)"
  using assms
  by (simp add: seek_def Let_def purge_queue_eq player_reader_seek_def reader_call_def)

lemma seek_Throws_future:
  assumes "is_ready_to_play_from_queue p" "storage_fault p = None"
    "storage_loading_future p = Finished (Some e)"
  shows "seek t p = Throws e
           (p\<lparr>skip_message_in_main_play_loop := True, cancel_wait_for_next_message := True,
              message_queue := [],
              reader := reader_seek (seek_target t p) (reader p),
              clock_now := seek_target t p,
              storage_loading_future := Invalid\<rparr>)"
  using assms
  by (simp add: seek_def Let_def purge_queue_eq player_reader_seek_def reader_call_def
      clock_jump_def is_storage_completely_loaded_def seek_target_def)

text \<open>
  Claim C5, amended.  For every call \<^verbatim>\<open>seek(t)\<close> on a player that is ready to play from the
  queue and has no storage error pending, and every such call returns: \<open>t\<close> is clamped below
  to \<^verbatim>\<open>starting_time_\<close> and never clamped above; under the reader mutex the queue is drained
  to empty, the cursor is repositioned to the clamped time, so that it yields the messages of
  the bag from that time on, and the clock is jumped to the clamped time; the flags that make
  the main play loop end its wait and drop the message it holds are set.  So the next message
  emitted has a time stamp of at least \<open>max t starting_time_\<close>, whether it is emitted by the
  main play loop, whatever message that loop held when \<^verbatim>\<open>seek\<close> was called, or by a following
  \<^verbatim>\<open>play_next\<close>; with the clock running and the producer refilling an empty queue the main
  play loop does come to its end.  A producer task that had finished is replaced by a new one
  if \<^verbatim>\<open>rclcpp::ok()\<close> holds; during shutdown none is spawned.

  The other calls: on a player that is not ready \<^verbatim>\<open>seek\<close> waits.  When the reader raises a
  storage error, \<^verbatim>\<open>seek\<close> throws it after the flags were set and the queue was drained, with
  cursor, clock and producer task untouched.  When the finished producer task had ended with a
  storage error, \<^verbatim>\<open>seek\<close> throws it after the cursor and the clock were moved, and spawns no
  new task.
\<close>
theorem seek_repositions:
  "(\<forall>q. seek t p = Returns () q \<longrightarrow>
        message_queue q = []
      \<and> remaining (reader q) = filter (\<lambda>m. max t (starting_time p) \<le> time_stamp m) (bag (reader p))
      \<and> clock_now q = max t (starting_time p)
      \<and> (starting_time p \<le> t \<longrightarrow> clock_now q = t)
      \<and> storage_loading_future q =
          (if storage_loading_future p = Running \<or> rclcpp_ok p then Running else Invalid)
      \<and> (\<forall>m\<in>set (upcoming q). max t (starting_time p) \<le> time_stamp m)
      \<and> (\<forall>b q'. play_next (q\<lparr>clock_paused := True\<rparr>) = Returns b q' \<longrightarrow>
            (\<exists>pubd. published q' = published q @ pubd
               \<and> (\<forall>m\<in>set pubd. max t (starting_time p) \<le> time_stamp m)))
      \<and> skip_message_in_main_play_loop q \<and> cancel_wait_for_next_message q
      \<and> published q = published p
      \<and> (\<forall>c held r. play_messages_loop held (q\<lparr>clock_paused := c\<rparr>) = Returns () r \<longrightarrow>
            (\<exists>pubd. published r = published q @ pubd
               \<and> (\<forall>m\<in>set pubd. max t (starting_time p) \<le> time_stamp m)))
      \<and> (0 < queue_lower_boundary p \<longrightarrow>
            (\<forall>held. \<exists>r. play_messages_loop held (q\<lparr>clock_paused := False\<rparr>) = Returns () r)))
   \<and> (is_ready_to_play_from_queue p \<and> no_storage_error p \<longrightarrow> (\<exists>q. seek t p = Returns () q))
   \<and> (\<not> is_ready_to_play_from_queue p \<longrightarrow> seek t p = Blocks)
   \<and> (\<forall>e. is_ready_to_play_from_queue p \<and> storage_fault p = Some e \<longrightarrow>
         seek t p = Throws (runtime_error e)
           (p\<lparr>skip_message_in_main_play_loop := True, cancel_wait_for_next_message := True,
              message_queue := []\<rparr>))
   \<and> (\<forall>e. is_ready_to_play_from_queue p \<and> storage_fault p = None
            \<and> storage_loading_future p = Finished (Some e) \<longrightarrow>
         seek t p = Throws e
           (p\<lparr>skip_message_in_main_play_loop := True, cancel_wait_for_next_message := True,
              message_queue := [],
              reader := reader_seek (max t (starting_time p)) (reader p),
              clock_now := max t (starting_time p),
              storage_loading_future := Invalid\<rparr>))"
proof (intro conjI allI impI)
  assume "is_ready_to_play_from_queue p \<and> no_storage_error p"
  then show "\<exists>q. seek t p = Returns () q" using seek_Returns by blast
next
  assume "\<not> is_ready_to_play_from_queue p"
  then show "seek t p = Blocks" by (simp add: seek_def Let_def)
next
  fix e assume "is_ready_to_play_from_queue p \<and> storage_fault p = Some e"
  then show "seek t p = Throws (runtime_error e)
           (p\<lparr>skip_message_in_main_play_loop := True, cancel_wait_for_next_message := True,
              message_queue := []\<rparr>)"
    using seek_Throws_reader by blast
next
  fix e assume "is_ready_to_play_from_queue p \<and> storage_fault p = None
            \<and> storage_loading_future p = Finished (Some e)"
  then show "seek t p = Throws e
           (p\<lparr>skip_message_in_main_play_loop := True, cancel_wait_for_next_message := True,
              message_queue := [],
              reader := reader_seek (max t (starting_time p)) (reader p),
              clock_now := max t (starting_time p),
              storage_loading_future := Invalid\<rparr>)"
    using seek_Throws_future[of p e t] by (simp add: seek_target_max)
next
  fix q assume res: "seek t p = Returns () q"
  let ?q = "p\<lparr>skip_message_in_main_play_loop := True, cancel_wait_for_next_message := True,
              message_queue := [],
              reader := reader_seek (seek_target t p) (reader p),
              clock_now := seek_target t p,
              storage_loading_future :=
                (if storage_loading_future p = Running \<or> rclcpp_ok p then Running else Invalid)\<rparr>"
  from seek_Returns_only[OF res] seek_Returns[of p t] res have q: "q = ?q" by simp
  from seek_Returns_only[OF res] have nse: "no_storage_error p" by simp
  have up: "upcoming ?q = filter (\<lambda>m. max t (starting_time p) \<le> time_stamp m) (bag (reader p))"
    by (simp add: upcoming_def reader_seek_def seek_target_max)
  have all: "\<forall>m\<in>set (upcoming ?q). max t (starting_time p) \<le> time_stamp m"
    by (simp only: up) simp
  show "message_queue q = []" unfolding q by simp
  show "remaining (reader q) = filter (\<lambda>m. max t (starting_time p) \<le> time_stamp m) (bag (reader p))"
    unfolding q by (simp add: reader_seek_def seek_target_max)
  show "clock_now q = max t (starting_time p)" unfolding q by (simp add: seek_target_max)
  show "clock_now q = t" if "starting_time p \<le> t"
    unfolding q using that by (simp add: seek_target_def)
  show "storage_loading_future q =
          (if storage_loading_future p = Running \<or> rclcpp_ok p then Running else Invalid)"
    unfolding q by simp
  show "\<forall>m\<in>set (upcoming q). max t (starting_time p) \<le> time_stamp m"
    using all by (simp only: q)
  show "skip_message_in_main_play_loop q" unfolding q by simp
  show "cancel_wait_for_next_message q" unfolding q by simp
  show "published q = published p" unfolding q by simp
  show "\<exists>pubd. published q' = published q @ pubd
               \<and> (\<forall>m\<in>set pubd. max t (starting_time p) \<le> time_stamp m)"
    if pn: "play_next (q\<lparr>clock_paused := True\<rparr>) = Returns b q'" for b q'
  proof -
    have "clock_paused (q\<lparr>clock_paused := True\<rparr>)" by simp
    from play_next_effect[OF this, of b q'] pn obtain skipped pubd where
      "loop_effect (q\<lparr>clock_paused := True\<rparr>) q' skipped pubd" by auto
    then have u: "upcoming (q\<lparr>clock_paused := True\<rparr>) = skipped @ pubd @ upcoming q'"
      and pb: "published q' = published (q\<lparr>clock_paused := True\<rparr>) @ pubd"
      by (simp_all add: loop_effect_def)
    have "upcoming (q\<lparr>clock_paused := True\<rparr>) = upcoming ?q" unfolding q by (simp add: upcoming_def)
    with u all have "\<forall>m\<in>set pubd. max t (starting_time p) \<le> time_stamp m"
      by (metis Un_iff set_append)
    with pb show ?thesis by simp
  qed
  show "\<exists>pubd. published r = published q @ pubd
               \<and> (\<forall>m\<in>set pubd. max t (starting_time p) \<le> time_stamp m)"
    if pl: "play_messages_loop held (q\<lparr>clock_paused := c\<rparr>) = Returns () r" for c held r
  proof -
    have "skip_message_in_main_play_loop (q\<lparr>clock_paused := c\<rparr>)" unfolding q by simp
    with play_messages_loop_published[of held "q\<lparr>clock_paused := c\<rparr>" "()" r] pl
    obtain pubd where pb: "published r = published (q\<lparr>clock_paused := c\<rparr>) @ pubd"
      and sub: "set pubd \<subseteq> set (upcoming (q\<lparr>clock_paused := c\<rparr>))" by blast
    have ue: "upcoming (q\<lparr>clock_paused := c\<rparr>) = upcoming ?q"
      unfolding q by (simp add: upcoming_def)
    have "\<forall>m\<in>set (upcoming (q\<lparr>clock_paused := c\<rparr>)). max t (starting_time p) \<le> time_stamp m"
      unfolding ue by (rule all)
    with sub have "\<forall>m\<in>set pubd. max t (starting_time p) \<le> time_stamp m"
      by (meson subsetD)
    with pb show ?thesis by simp
  qed
  show "\<exists>r. play_messages_loop held (q\<lparr>clock_paused := False\<rparr>) = Returns () r"
    if lb: "0 < queue_lower_boundary p" for held
  proof -
    from nse have "no_storage_error (q\<lparr>clock_paused := False\<rparr>)"
      unfolding q by (auto simp: no_storage_error_def split: future_state.splits option.splits)
    moreover from lb have "0 < queue_lower_boundary (q\<lparr>clock_paused := False\<rparr>)"
      unfolding q by (simp add: queue_lower_boundary_def)
    moreover have "\<not> clock_paused (q\<lparr>clock_paused := False\<rparr>)" by simp
    ultimately show ?thesis by (rule play_messages_loop_ok)
  qed
qed

definition five_messages :: "SerializedBagMessage list" where
  "five_messages = [msg ''/a'' 10, msg ''/a'' 20, msg ''/a'' 30, msg ''/a'' 40, msg ''/a'' 50]"

text \<open>
  A player in the middle of a bag of five messages: the main play loop has published the first
  message and holds the second one, the head of the queue, while it waits for its time.
\<close>

definition playing_player :: Player where
  "playing_player =
     (paused_player {''/a''} five_messages)
       \<lparr>clock_paused := False, clock_now := 10, published := [msg ''/a'' 10],
        message_queue := [msg ''/a'' 20, msg ''/a'' 30, msg ''/a'' 40, msg ''/a'' 50]\<rparr>"

lemma seek_example:
  "seek 25 playing_player =
     Returns ()
       (playing_player
          \<lparr>skip_message_in_main_play_loop := True, cancel_wait_for_next_message := True,
           message_queue := [],
           reader := \<lparr>bag = five_messages,
                      remaining = [msg ''/a'' 30, msg ''/a'' 40, msg ''/a'' 50]\<rparr>,
           clock_now := 25, storage_loading_future := Running\<rparr>)"
  by (simp add: seek_def Let_def purge_queue_eq player_reader_seek_def reader_call_def
      clock_jump_def is_storage_completely_loaded_def paused_player_def playing_player_def
      reader_seek_def five_messages_def msg_def)

text \<open>
  The main play loop, which held the message of time 20 when \<^verbatim>\<open>seek(25)\<close> was called, drops
  it and goes on with the messages of times 30, 40 and 50.
\<close>

lemma seek_resume_example:
  "play_messages_loop (Some (msg ''/a'' 20))
     (playing_player
          \<lparr>skip_message_in_main_play_loop := True, cancel_wait_for_next_message := True,
           message_queue := [],
           reader := \<lparr>bag = five_messages,
                      remaining = [msg ''/a'' 30, msg ''/a'' 40, msg ''/a'' 50]\<rparr>,
           clock_now := 25, storage_loading_future := Running, clock_paused := False\<rparr>) =
   Returns ()
     (playing_player
          \<lparr>skip_message_in_main_play_loop := False, cancel_wait_for_next_message := False,
           message_queue := [],
           reader := \<lparr>bag = five_messages, remaining = []\<rparr>,
           clock_now := 50, storage_loading_future := Invalid,
           published := [msg ''/a'' 10, msg ''/a'' 30, msg ''/a'' 40, msg ''/a'' 50]\<rparr>)"
  by (simp add: play_messages_loop.simps wait_for_message_time_def clock_sleep_until_def
      producer_turn_def load_storage_content.simps enqueue_up_to_boundary_def
      enqueue_loop.simps player_reader_has_next_def player_reader_read_next_def reader_call_def
      has_next_def read_next_def queue_lower_boundary_def peek_next_message_from_queue_def
      queue_peek_def queue_pop_def publish_message_def is_storage_completely_loaded_def
      paused_player_def playing_player_def five_messages_def msg_def Let_def)

theorem seek_repositions_witness:
  "is_ready_to_play_from_queue playing_player
   \<and> no_storage_error playing_player
   \<and> 0 < queue_lower_boundary playing_player
   \<and> starting_time playing_player \<le> 25
   \<and> (\<exists>q. seek 25 playing_player = Returns () q
          \<and> message_queue q = []
          \<and> remaining (reader q) = [msg ''/a'' 30, msg ''/a'' 40, msg ''/a'' 50]
          \<and> clock_now q = 25
          \<and> storage_loading_future q = Running
          \<and> skip_message_in_main_play_loop q \<and> cancel_wait_for_next_message q
          \<and> (\<exists>r pubd. play_messages_loop (Some (msg ''/a'' 20)) (q\<lparr>clock_paused := False\<rparr>)
                         = Returns () r
                \<and> published r = [msg ''/a'' 10] @ pubd
                \<and> (\<forall>m\<in>set pubd. 25 \<le> time_stamp m)))"
proof -
  let ?p = "playing_player"
  have h: "is_ready_to_play_from_queue ?p" "no_storage_error ?p" "0 < queue_lower_boundary ?p"
    "starting_time ?p \<le> 25"
    by (simp_all add: playing_player_def paused_player_def no_storage_error_def
        queue_lower_boundary_def)
  have e: "max 25 (starting_time ?p) = 25"
    "filter (\<lambda>m. 25 \<le> time_stamp m) (bag (reader ?p)) = [msg ''/a'' 30, msg ''/a'' 40, msg ''/a'' 50]"
    "(if storage_loading_future ?p = Running \<or> rclcpp_ok ?p then Running else Invalid) = Running"
    "published ?p = [msg ''/a'' 10]"
    by (simp_all add: playing_player_def paused_player_def five_messages_def msg_def)
  note t = seek_repositions[of 25 ?p, unfolded e]
  from t h obtain q where q: "seek 25 ?p = Returns () q" by blast
  with t have a: "message_queue q = []
          \<and> remaining (reader q) = [msg ''/a'' 30, msg ''/a'' 40, msg ''/a'' 50]
          \<and> clock_now q = 25
          \<and> storage_loading_future q = Running
          \<and> skip_message_in_main_play_loop q \<and> cancel_wait_for_next_message q"
    by blast
  from t q have pq: "published q = [msg ''/a'' 10]" by blast
  from t q h(3) obtain r where
    r: "play_messages_loop (Some (msg ''/a'' 20)) (q\<lparr>clock_paused := False\<rparr>) = Returns () r"
    by blast
  from t q r obtain pubd where "published r = published q @ pubd"
    "\<forall>m\<in>set pubd. 25 \<le> time_stamp m" by blast
  with pq r have "\<exists>r pubd. play_messages_loop (Some (msg ''/a'' 20)) (q\<lparr>clock_paused := False\<rparr>)
                         = Returns () r
                \<and> published r = [msg ''/a'' 10] @ pubd
                \<and> (\<forall>m\<in>set pubd. 25 \<le> time_stamp m)"
    by auto
  with h q a show ?thesis by blast
qed

text \<open>
  Three calls for which the claim as it stands fails.  The producer task has finished and the
  node is shutting down (\<^verbatim>\<open>rclcpp::ok()\<close> is false): \<^verbatim>\<open>seek\<close> returns without spawning a new
  producer task.  The reader raises a storage error: \<^verbatim>\<open>seek\<close> throws after it has drained the
  queue, the cursor is not repositioned and the clock still stands at 0.  The player is not yet
  ready to play from the queue: \<^verbatim>\<open>seek\<close> waits, and nothing is drained, repositioned or jumped.
\<close>

theorem seek_no_respawn_at_shutdown:
  "storage_loading_future ((paused_player {''/a''} five_messages)\<lparr>rclcpp_ok := False\<rparr>) = Invalid
   \<and> seek 25 ((paused_player {''/a''} five_messages)\<lparr>rclcpp_ok := False\<rparr>) =
       Returns ()
         ((paused_player {''/a''} five_messages)
            \<lparr>rclcpp_ok := False, skip_message_in_main_play_loop := True,
              cancel_wait_for_next_message := True, message_queue := [],
              reader := \<lparr>bag = five_messages,
                         remaining = [msg ''/a'' 30, msg ''/a'' 40, msg ''/a'' 50]\<rparr>,
              clock_now := 25, storage_loading_future := Invalid\<rparr>)
   \<and> seek 25 ((paused_player {''/a''} five_messages)\<lparr>storage_fault := Some ''io''\<rparr>) =
       Throws (runtime_error ''io'')
         ((paused_player {''/a''} five_messages)
            \<lparr>storage_fault := Some ''io'', skip_message_in_main_play_loop := True,
              cancel_wait_for_next_message := True, message_queue := [],
              reader := \<lparr>bag = five_messages, remaining = []\<rparr>,
              clock_now := 0, storage_loading_future := Invalid\<rparr>)
   \<and> seek 25 ((paused_player {''/a''} five_messages)\<lparr>is_ready_to_play_from_queue := False\<rparr>)
       = Blocks"
  by (simp add: seek_def Let_def purge_queue_eq player_reader_seek_def reader_call_def
      clock_jump_def is_storage_completely_loaded_def paused_player_def reader_seek_def
      five_messages_def msg_def)

lemma play_catches:
  assumes "play_do_while passes (fst (play_delay p)) (snd (play_delay p))
             = Some (Throws (runtime_error e) p1)"
  shows "play passes p =
           Some (Returns ()
             ((log_msg ERROR (''Failed to play: '' @ e) p1)
                \<lparr>is_ready_to_play_from_queue := False\<rparr>))"
proof -
  obtain d p0 where pd: "play_delay p = (d, p0)" by (cases "play_delay p")
  with assms have "play_do_while passes d p0 = Some (Throws (runtime_error e) p1)" by simp
  with pd show ?thesis by (simp add: play_def)
qed

lemma play_pass_storage_fault:
  assumes "storage_fault p = Some e"
  shows "\<exists>p1. play_pass d p = Throws (runtime_error e) p1 \<and> published p1 = published p
              \<and> storage_fault p1 = Some e"
proof -
  let ?p0 = "if 0 < d then producer_turn (log_msg INFO (''Sleep '' @ show_int d @ '' ns'') p) else p"
  have f: "producer_frame p ?p0"
    using producer_frame_trans[OF producer_frame_log[OF producer_frame_refl] producer_turn_frame]
    by (auto simp: producer_frame_refl)
  note ff = producer_frame_fields[OF f]
  from ff(7) assms have "storage_fault ?p0 = Some e" by simp
  then have "player_reader_seek (starting_time ?p0) ?p0 = Throws (runtime_error e) ?p0"
    by (simp add: player_reader_seek_def reader_call_def)
  then have "play_pass d p = Throws (runtime_error e) ?p0"
    by (simp add: play_pass_def Let_def)
  with ff(3,7) assms show ?thesis by simp
qed

text \<open>
  Claim C6.  A \<^verbatim>\<open>std::runtime_error\<close> that leaves the loop of \<^verbatim>\<open>play\<close> in any pass is caught:
  \<^verbatim>\<open>play\<close> logs \<^verbatim>\<open>Failed to play: <msg>\<close>, clears \<^verbatim>\<open>is_ready_to_play_from_queue_\<close> and returns
  normally.  In particular, when the reader raises a storage error, \<^verbatim>\<open>play\<close> returns in its
  first pass with that log entry last, the flag cleared and nothing published.
\<close>

theorem play_catches_storage_error:
  "(\<forall>e p1. play_do_while passes (fst (play_delay p)) (snd (play_delay p))
               = Some (Throws (runtime_error e) p1) \<longrightarrow>
        play passes p =
          Some (Returns ()
            ((log_msg ERROR (''Failed to play: '' @ e) p1)
               \<lparr>is_ready_to_play_from_queue := False\<rparr>)))
   \<and> (\<forall>e. storage_fault p = Some e \<longrightarrow>
        (\<exists>q. play (Suc passes) p = Some (Returns () q)
           \<and> last (logger q) = (ERROR, ''Failed to play: '' @ e)
           \<and> \<not> is_ready_to_play_from_queue q
           \<and> published q = published p))"
proof (intro conjI allI impI)
  fix e p1
  assume "play_do_while passes (fst (play_delay p)) (snd (play_delay p))
               = Some (Throws (runtime_error e) p1)"
  then show "play passes p =
          Some (Returns ()
            ((log_msg ERROR (''Failed to play: '' @ e) p1)
               \<lparr>is_ready_to_play_from_queue := False\<rparr>))"
    by (rule play_catches)
next
  fix e assume sf: "storage_fault p = Some e"
  let ?d = "fst (play_delay p)" and ?p0 = "snd (play_delay p)"
  have p0: "storage_fault ?p0 = Some e" "published ?p0 = published p"
    using sf by (simp_all add: play_delay_def log_msg_def)
  from play_pass_storage_fault[OF p0(1), of ?d] obtain p1 where
    pp: "play_pass ?d ?p0 = Throws (runtime_error e) p1" and pb: "published p1 = published ?p0"
    by blast
  then have "play_do_while (Suc passes) ?d ?p0 = Some (Throws (runtime_error e) p1)" by simp
  from play_catches[OF this]
  have "play (Suc passes) p = Some (Returns ()
             ((log_msg ERROR (''Failed to play: '' @ e) p1)
                \<lparr>is_ready_to_play_from_queue := False\<rparr>))" .
  moreover have "last (logger ((log_msg ERROR (''Failed to play: '' @ e) p1)
                \<lparr>is_ready_to_play_from_queue := False\<rparr>)) = (ERROR, ''Failed to play: '' @ e)"
    by (simp add: log_msg_def)
  moreover have "published ((log_msg ERROR (''Failed to play: '' @ e) p1)
                \<lparr>is_ready_to_play_from_queue := False\<rparr>) = published p"
    using pb p0(2) by (simp add: log_msg_def)
  ultimately show "\<exists>q. play (Suc passes) p = Some (Returns () q)
           \<and> last (logger q) = (ERROR, ''Failed to play: '' @ e)
           \<and> \<not> is_ready_to_play_from_queue q
           \<and> published q = published p"
    by (intro exI[of _ "(log_msg ERROR (''Failed to play: '' @ e) p1)
                \<lparr>is_ready_to_play_from_queue := False\<rparr>"]) simp
qed


theorem play_catches_storage_error_witness:
  "storage_fault ((paused_player {''/a''} five_messages)\<lparr>storage_fault := Some ''disk I/O error''\<rparr>)
     = Some ''disk I/O error''
   \<and> (\<exists>q. play (Suc 0)
             ((paused_player {''/a''} five_messages)\<lparr>storage_fault := Some ''disk I/O error''\<rparr>)
           = Some (Returns () q)
          \<and> last (logger q) = (ERROR, ''Failed to play: disk I/O error'')
          \<and> \<not> is_ready_to_play_from_queue q
          \<and> published q = [])"
proof -
  let ?p = "(paused_player {''/a''} five_messages)\<lparr>storage_fault := Some ''disk I/O error''\<rparr>"
  have h: "storage_fault ?p = Some ''disk I/O error''" by simp
  have e: "published ?p = []" "''Failed to play: '' @ ''disk I/O error'' = ''Failed to play: disk I/O error''"
    by (simp_all add: paused_player_def)
  from play_catches_storage_error[of 0 ?p] h
  have "\<exists>q. play (Suc 0) ?p = Some (Returns () q)
           \<and> last (logger q) = (ERROR, ''Failed to play: '' @ ''disk I/O error'')
           \<and> \<not> is_ready_to_play_from_queue q
           \<and> published q = published ?p"
    by blast
  with h show ?thesis unfolding e by blast
qed

section \<open>Quality-of-service profiles\<close>

text \<open>
  The two policies of \<^verbatim>\<open>rmw_qos_profile_t\<close> that the sources inspect, with the enumerators of
  \<^verbatim>\<open>rmw/types.h\<close>.
\<close>

datatype rmw_qos_reliability_policy_t =
  RMW_QOS_POLICY_RELIABILITY_SYSTEM_DEFAULT
  | RMW_QOS_POLICY_RELIABILITY_RELIABLE
  | RMW_QOS_POLICY_RELIABILITY_BEST_EFFORT
  | RMW_QOS_POLICY_RELIABILITY_UNKNOWN

datatype rmw_qos_durability_policy_t =
  RMW_QOS_POLICY_DURABILITY_SYSTEM_DEFAULT
  | RMW_QOS_POLICY_DURABILITY_TRANSIENT_LOCAL
  | RMW_QOS_POLICY_DURABILITY_VOLATILE
  | RMW_QOS_POLICY_DURABILITY_UNKNOWN

record rmw_qos_profile_t =
  reliability :: rmw_qos_reliability_policy_t
  durability :: rmw_qos_durability_policy_t

record TopicMetadata =
  name :: string
  type :: string
  serialization_format :: string
  offered_qos_profiles :: string

text \<open>
  \<^verbatim>\<open>Rosbag2QoS\<close> is declared in \<^verbatim>\<open>qos.hpp\<close>, which is not part of the sources.  Its default
  profile, the decoding of a YAML list of profiles and \<^verbatim>\<open>adapt_offer_to_recorded_offers\<close>
  are parameters of the model.
\<close>

record Rosbag2QoS_library =
  default_profile :: rmw_qos_profile_t
  yaml_as_profiles :: "string \<Rightarrow> rmw_qos_profile_t list"
  adapt_offer_to_recorded_offers :: "string \<Rightarrow> rmw_qos_profile_t list \<Rightarrow> rmw_qos_profile_t"
  adapt_request_to_offers :: "string \<Rightarrow> rmw_qos_profile_t list \<Rightarrow> rmw_qos_profile_t"
  yaml_dump :: "rmw_qos_profile_t list \<Rightarrow> string"

type_synonym log_t = "(severity \<times> string) list"

text \<open>\<^verbatim>\<open>publisher_qos_for_topic\<close> of \<^verbatim>\<open>player.cpp\<close>; the result comes with the log.\<close>

definition publisher_qos_for_topic ::
  "Rosbag2QoS_library \<Rightarrow> TopicMetadata \<Rightarrow> (string \<rightharpoonup> rmw_qos_profile_t) \<Rightarrow> log_t
   \<Rightarrow> rmw_qos_profile_t \<times> log_t" where
  "publisher_qos_for_topic lib topic topic_qos_profile_overrides' lg =
     (case topic_qos_profile_overrides' (name topic) of
        Some qos \<Rightarrow> (qos, lg @ [(INFO, ''Overriding QoS profile for topic '' @ name topic)])
      | None \<Rightarrow>
          if offered_qos_profiles topic = [] then (default_profile lib, lg)
          else (adapt_offer_to_recorded_offers lib (name topic)
                  (yaml_as_profiles lib (offered_qos_profiles topic)), lg))"

section \<open>The recording engine (\<^verbatim>\<open>recorder.cpp\<close>)\<close>

text \<open>
  What the recorder sees of the middleware: the answer to \<^verbatim>\<open>get_topic_names_and_types\<close>,
  which is the list of topics with their types or the error the query raises, the profiles of
  the current publishers of a topic, the exception, if any, that
  \<^verbatim>\<open>create_generic_subscription\<close> raises for a topic, whether it yields a subscription
  rather than null, the expansion of a topic name against the name and namespace of the
  node, and the serialization format of the middleware.
\<close>

record Middleware =
  topic_names_and_types :: "error + (string \<times> string list) list"
  publishers_info_by_topic :: "string \<Rightarrow> rmw_qos_profile_t list"
  subscription_error :: "string \<Rightarrow> string option"
  can_subscribe :: "string \<Rightarrow> bool"
  expand_topic_or_service_name :: "string \<Rightarrow> string"
  rmw_get_serialization_format :: string


text \<open>
  The state of a \<^verbatim>\<open>Recorder\<close>.  The first nine fields are the options it was built with.  The
  writer is seen through the storage error, if any, that a call into it raises, the conversion
  options it was opened with and the topics created in it; a subscription through the profile
  it was created with.
\<close>

record Recorder =
  rmw_serialization_format :: string
  options_topic_qos_profile_overrides :: "string \<rightharpoonup> rmw_qos_profile_t"
  is_discovery_disabled :: bool
  snapshot_mode :: bool
  topics :: "string list"
  regex :: string
  exclude :: string
  all :: bool
  include_hidden_topics :: bool
  topic_qos_profile_overrides :: "string \<rightharpoonup> rmw_qos_profile_t"
  topic_unknown_types :: "string set"
  writer_fault :: "string option"
  writer_opened :: "(string \<times> string) option"
  writer_topics :: "TopicMetadata list"
  srv_snapshot :: bool
  recorder_serialization_format :: string
  subscriptions :: "string \<rightharpoonup> rmw_qos_profile_t"
  topics_warned_about_incompatibility :: "string set"
  discovery_running :: bool
  recorder_log :: log_t

definition rlog :: "severity \<Rightarrow> string \<Rightarrow> Recorder \<Rightarrow> Recorder" where
  "rlog sev txt r = r\<lparr>recorder_log := recorder_log r @ [(sev, txt)]\<rparr>"











text \<open>The two warnings of \<^verbatim>\<open>warn_if_new_qos_for_subscribed_topic\<close>.\<close>

definition reliability_warning :: "string \<Rightarrow> string" where
  "reliability_warning topic_name' =
     ''A new publisher for subscribed topic '' @ topic_name' @ '' '' @
     ''was found offering RMW_QOS_POLICY_RELIABILITY_BEST_EFFORT, '' @
     ''but rosbag already subscribed requesting RMW_QOS_POLICY_RELIABILITY_RELIABLE. '' @
     ''Messages from this new publisher will not be recorded.''"

definition durability_warning :: "string \<Rightarrow> string" where
  "durability_warning topic_name' =
     ''A new publisher for subscribed topic '' @ topic_name' @ '' '' @
     ''was found offering RMW_QOS_POLICY_DURABILITY_VOLATILE, '' @
     ''but rosbag2 already subscribed requesting RMW_QOS_POLICY_DURABILITY_TRANSIENT_LOCAL. '' @
     ''Messages from this new publisher will not be recorded.''"

text \<open>The loop over the publishers of the topic.\<close>

fun warn_loop :: "string \<Rightarrow> rmw_qos_profile_t \<Rightarrow> rmw_qos_profile_t list \<Rightarrow> Recorder \<Rightarrow> Recorder" where
  "warn_loop topic_name' used_profile [] r = r"
| "warn_loop topic_name' used_profile (new_profile # rest) r =
     (let incompatible_reliability =
            (reliability new_profile = RMW_QOS_POLICY_RELIABILITY_BEST_EFFORT
             \<and> reliability used_profile \<noteq> RMW_QOS_POLICY_RELIABILITY_BEST_EFFORT);
          incompatible_durability =
            (durability new_profile = RMW_QOS_POLICY_DURABILITY_VOLATILE
             \<and> durability used_profile \<noteq> RMW_QOS_POLICY_DURABILITY_VOLATILE)
      in warn_loop topic_name' used_profile rest
           (if incompatible_reliability then
              (rlog WARN (reliability_warning topic_name') r)
                \<lparr>topics_warned_about_incompatibility :=
                   insert topic_name' (topics_warned_about_incompatibility r)\<rparr>
            else if incompatible_durability then
              (rlog WARN (durability_warning topic_name') r)
                \<lparr>topics_warned_about_incompatibility :=
                   insert topic_name' (topics_warned_about_incompatibility r)\<rparr>
            else r))"

definition warn_if_new_qos_for_subscribed_topic ::
  "Middleware \<Rightarrow> string \<Rightarrow> Recorder \<Rightarrow> Recorder" where
  "warn_if_new_qos_for_subscribed_topic mw topic_name' r =
     (case subscriptions r topic_name' of
        None \<Rightarrow> r
      | Some used_profile \<Rightarrow>
          if topic_name' \<in> topics_warned_about_incompatibility r then r
          else warn_loop topic_name' used_profile (publishers_info_by_topic mw topic_name') r)"

text \<open>The number of incompatibility warnings logged for a topic.\<close>

definition qos_warnings :: "string \<Rightarrow> Recorder \<Rightarrow> nat" where
  "qos_warnings topic_name' r =
     length (filter (\<lambda>entry. entry = (WARN, reliability_warning topic_name')
                           \<or> entry = (WARN, durability_warning topic_name'))
               (recorder_log r))"

text \<open>
  Claim C9.  \<^verbatim>\<open>publisher_qos_for_topic\<close> returns the override for the topic name when there is
  one; otherwise the default profile when the topic's \<^verbatim>\<open>offered_qos_profiles\<close> string is empty;
  otherwise the offer adapted to the profiles decoded from that string.
\<close>

theorem publisher_qos_priority:
  "(\<forall>qos. topic_qos_profile_overrides' (name topic) = Some qos \<longrightarrow>
       fst (publisher_qos_for_topic lib topic topic_qos_profile_overrides' lg) = qos)
   \<and> (topic_qos_profile_overrides' (name topic) = None \<and> offered_qos_profiles topic = [] \<longrightarrow>
       fst (publisher_qos_for_topic lib topic topic_qos_profile_overrides' lg) = default_profile lib)
   \<and> (topic_qos_profile_overrides' (name topic) = None \<and> offered_qos_profiles topic \<noteq> [] \<longrightarrow>
       fst (publisher_qos_for_topic lib topic topic_qos_profile_overrides' lg) =
         adapt_offer_to_recorded_offers lib (name topic)
           (yaml_as_profiles lib (offered_qos_profiles topic)))"
  by (simp add: publisher_qos_for_topic_def)

definition example_lib :: Rosbag2QoS_library where
  "example_lib =
     \<lparr>default_profile = \<lparr>reliability = RMW_QOS_POLICY_RELIABILITY_RELIABLE,
                          durability = RMW_QOS_POLICY_DURABILITY_VOLATILE\<rparr>,
      yaml_as_profiles = (\<lambda>s. [\<lparr>reliability = RMW_QOS_POLICY_RELIABILITY_BEST_EFFORT,
                                 durability = RMW_QOS_POLICY_DURABILITY_VOLATILE\<rparr>]),
      adapt_offer_to_recorded_offers = (\<lambda>n ps. hd ps),
      adapt_request_to_offers = (\<lambda>n ps. \<lparr>reliability = RMW_QOS_POLICY_RELIABILITY_RELIABLE,
                                            durability = RMW_QOS_POLICY_DURABILITY_VOLATILE\<rparr>),
      yaml_dump = (\<lambda>ps. [])\<rparr>"

definition example_topic :: "string \<Rightarrow> TopicMetadata" where
  "example_topic offered =
     \<lparr>name = ''/chatter'', type = ''std_msgs/msg/String'', serialization_format = ''cdr'',
      offered_qos_profiles = offered\<rparr>"

theorem publisher_qos_priority_witness:
  "fst (publisher_qos_for_topic example_lib (example_topic ''- reliability: 2'')
          [''/chatter'' \<mapsto> \<lparr>reliability = RMW_QOS_POLICY_RELIABILITY_RELIABLE,
                              durability = RMW_QOS_POLICY_DURABILITY_TRANSIENT_LOCAL\<rparr>] [])
     = \<lparr>reliability = RMW_QOS_POLICY_RELIABILITY_RELIABLE,
        durability = RMW_QOS_POLICY_DURABILITY_TRANSIENT_LOCAL\<rparr>
   \<and> fst (publisher_qos_for_topic example_lib (example_topic []) Map.empty [])
     = default_profile example_lib
   \<and> fst (publisher_qos_for_topic example_lib (example_topic ''- reliability: 2'') Map.empty [])
     = \<lparr>reliability = RMW_QOS_POLICY_RELIABILITY_BEST_EFFORT,
        durability = RMW_QOS_POLICY_DURABILITY_VOLATILE\<rparr>"
  using publisher_qos_priority[of "[''/chatter'' \<mapsto> \<lparr>reliability = RMW_QOS_POLICY_RELIABILITY_RELIABLE,
                              durability = RMW_QOS_POLICY_DURABILITY_TRANSIENT_LOCAL\<rparr>]"
          "example_topic ''- reliability: 2''" example_lib "[]"]
    publisher_qos_priority[of Map.empty "example_topic []" example_lib "[]"]
    publisher_qos_priority[of Map.empty "example_topic ''- reliability: 2''" example_lib "[]"]
  by (simp add: example_topic_def example_lib_def)



















lemma warn_skips_warned_topic:
  "topic_name' \<in> topics_warned_about_incompatibility r \<Longrightarrow>
   warn_if_new_qos_for_subscribed_topic mw topic_name' r = r"
  by (simp add: warn_if_new_qos_for_subscribed_topic_def split: option.splits)

lemma warn_loop_logged:
  "recorder_log (warn_loop topic_name' used_profile ps r) \<noteq> recorder_log r \<or>
   topic_name' \<in> topics_warned_about_incompatibility r \<Longrightarrow>
   topic_name' \<in> topics_warned_about_incompatibility (warn_loop topic_name' used_profile ps r)"
proof (induction ps arbitrary: r)
  case Nil
  then show ?case by simp
next
  case (Cons new_profile ps)
  let ?r1 = "(rlog WARN (reliability_warning topic_name') r)
                \<lparr>topics_warned_about_incompatibility :=
                   insert topic_name' (topics_warned_about_incompatibility r)\<rparr>"
  let ?r2 = "(rlog WARN (durability_warning topic_name') r)
                \<lparr>topics_warned_about_incompatibility :=
                   insert topic_name' (topics_warned_about_incompatibility r)\<rparr>"
  have a: "topic_name' \<in> topics_warned_about_incompatibility ?r1"
    "topic_name' \<in> topics_warned_about_incompatibility ?r2" by (simp_all add: rlog_def)
  from Cons.prems Cons.IH[of ?r1] Cons.IH[of ?r2] Cons.IH[of r] a show ?case
    by (auto simp: Let_def split: if_splits)
qed

text \<open>A call that has logged a warning for a topic silences all later calls for it.\<close>

lemma warn_then_silent:
  assumes "recorder_log (warn_if_new_qos_for_subscribed_topic mw topic_name' r) \<noteq> recorder_log r"
  shows "warn_if_new_qos_for_subscribed_topic mw'
           topic_name' (warn_if_new_qos_for_subscribed_topic mw topic_name' r)
         = warn_if_new_qos_for_subscribed_topic mw topic_name' r"
proof -
  from assms obtain used where s: "subscriptions r topic_name' = Some used"
    and n: "topic_name' \<notin> topics_warned_about_incompatibility r"
    by (auto simp: warn_if_new_qos_for_subscribed_topic_def split: option.splits if_splits)
  then have e: "warn_if_new_qos_for_subscribed_topic mw topic_name' r
      = warn_loop topic_name' used (publishers_info_by_topic mw topic_name') r"
    by (simp add: warn_if_new_qos_for_subscribed_topic_def)
  with assms warn_loop_logged[of topic_name' used "publishers_info_by_topic mw topic_name'" r]
  have "topic_name' \<in> topics_warned_about_incompatibility
          (warn_if_new_qos_for_subscribed_topic mw topic_name' r)" by simp
  then show ?thesis by (rule warn_skips_warned_topic)
qed

text \<open>
  A recorder subscribed to \<^verbatim>\<open>/chatter\<close> with a reliable profile, and a middleware in which
  two publishers offer best-effort reliability on that topic.
\<close>

definition subscribed_recorder :: Recorder where
  "subscribed_recorder =
     \<lparr>rmw_serialization_format = ''cdr'', options_topic_qos_profile_overrides = Map.empty,
      is_discovery_disabled = False, snapshot_mode = False,
      topics = [], regex = [], exclude = [], all = True, include_hidden_topics = False,
      topic_qos_profile_overrides = Map.empty, topic_unknown_types = {}, writer_fault = None,
      writer_opened = Some (''cdr'', ''cdr''),
      writer_topics = [example_topic []], srv_snapshot = False,
      recorder_serialization_format = ''cdr'',
      subscriptions =
        [''/chatter'' \<mapsto> \<lparr>reliability = RMW_QOS_POLICY_RELIABILITY_RELIABLE,
                           durability = RMW_QOS_POLICY_DURABILITY_VOLATILE\<rparr>],
      topics_warned_about_incompatibility = {}, discovery_running = True, recorder_log = []\<rparr>"

definition two_best_effort_publishers :: Middleware where
  "two_best_effort_publishers =
     \<lparr>topic_names_and_types = Inr [(''/chatter'', [''std_msgs/msg/String''])],
      publishers_info_by_topic =
        (\<lambda>t. [\<lparr>reliability = RMW_QOS_POLICY_RELIABILITY_BEST_EFFORT,
                 durability = RMW_QOS_POLICY_DURABILITY_VOLATILE\<rparr>,
               \<lparr>reliability = RMW_QOS_POLICY_RELIABILITY_BEST_EFFORT,
                 durability = RMW_QOS_POLICY_DURABILITY_VOLATILE\<rparr>]),
      subscription_error = (\<lambda>t. None),
      can_subscribe = (\<lambda>t. True), expand_topic_or_service_name = (\<lambda>t. t),
      rmw_get_serialization_format = ''cdr''\<rparr>"

text \<open>
  Claim C8 fails on the code.  The check for a topic already warned about is made once, on
  entry; the loop over the publishers has no exit after a warning.  With two best-effort
  publishers on a topic subscribed reliably, a single call logs the warning twice.
\<close>

theorem qos_warning_emitted_twice:
  "recorder_log
     (warn_if_new_qos_for_subscribed_topic two_best_effort_publishers ''/chatter''
        subscribed_recorder)
   = [(WARN, reliability_warning ''/chatter''), (WARN, reliability_warning ''/chatter'')]
   \<and> qos_warnings ''/chatter''
       (warn_if_new_qos_for_subscribed_topic two_best_effort_publishers ''/chatter''
          subscribed_recorder) = 2"
  by (simp add: warn_if_new_qos_for_subscribed_topic_def subscribed_recorder_def
      two_best_effort_publishers_def rlog_def qos_warnings_def)

end
